theory Spec2Isabelle
  imports Main "HOL-Library.Word"
begin

unbundle bit_operations_syntax

section \<open>Common types\<close>

type_synonym u8 = "8 word"
type_synonym u32 = "32 word"
type_synonym u64 = "64 word"

text \<open>
  How a kernel function can fail to return a value: \<open>panic\<close> with its message, an access
  outside a fixed-size global array (undefined behaviour in C), and a sleep on a sleep-lock that
  is held (in a run of one caller nobody is left to release it; the number is the buffer).
\<close>

datatype error = Panic string | OutOfBounds | Sleeps nat

section \<open>The physical page allocator (kernel/kalloc.c)\<close>

subsection \<open>Memory and layout\<close>

text \<open>
  \<open>memlayout.h\<close>, \<open>riscv.h\<close> and the linker script are not among the sources: the first
  address after the kernel (\<open>end\<close>), \<open>PHYSTOP\<close> and \<open>MAXVA\<close> are parameters.
\<close>

record layout =
  kend :: u64
  PHYSTOP :: u64
  MAXVA :: u64

text \<open>The header of kalloc.c: the allocator hands out whole 4096-byte pages.\<close>

definition PGSIZE :: u64 where
  "PGSIZE = 4096"

definition PGROUNDDOWN :: "u64 \<Rightarrow> u64" where
  "PGROUNDDOWN a = a AND NOT (PGSIZE - 1)"

text \<open>
  Physical memory is a function from byte addresses to bytes. \<open>a - p < n\<close> on words says
  that \<open>a\<close> is one of the \<open>n\<close> bytes starting at \<open>p\<close>.
\<close>

type_synonym memory = "u64 \<Rightarrow> u8"

definition memset :: "memory \<Rightarrow> u64 \<Rightarrow> u8 \<Rightarrow> u64 \<Rightarrow> memory" where
  "memset m p c n = (\<lambda>a. if a - p < n then c else m a)"

definition memmove :: "memory \<Rightarrow> u64 \<Rightarrow> u64 \<Rightarrow> u64 \<Rightarrow> memory" where
  "memmove m dst src n = (\<lambda>a. if a - dst < n then m (src + (a - dst)) else m a)"

text \<open>A 64-bit store, least significant byte first (RISC-V is little-endian).\<close>

definition write64 :: "memory \<Rightarrow> u64 \<Rightarrow> u64 \<Rightarrow> memory" where
  "write64 m p v = (\<lambda>a. if a - p < 8 then ucast (drop_bit (8 * unat (a - p)) v) else m a)"

subsection \<open>Allocator state\<close>

text \<open>
  \<open>kmem.freelist\<close> is a chain of \<open>struct run\<close> through \<open>next\<close>, each node being the free
  page itself: the list holds the page addresses in chain order and the null pointer is the
  empty list. \<open>ref\<close> is the global table \<open>uint ref[PHYSTOP / PGSIZE]\<close>, read and written by
  index; \<open>in_ref\<close> says that an index is inside the table.
\<close>

record kmem =
  freelist :: "u64 list"
  ref :: "u64 \<Rightarrow> u32"
  mem :: memory

definition freelist_head :: "kmem \<Rightarrow> u64" where
  "freelist_head s = (case freelist s of [] \<Rightarrow> 0 | r # _ \<Rightarrow> r)"

definition in_ref :: "layout \<Rightarrow> u64 \<Rightarrow> bool" where
  "in_ref L i = (i < PHYSTOP L div PGSIZE)"

subsection \<open>kfree and kalloc\<close>

definition kfree :: "layout \<Rightarrow> u64 \<Rightarrow> kmem \<Rightarrow> error + kmem" where
  "kfree L pa s =
     (if pa mod PGSIZE \<noteq> 0 \<or> pa < kend L \<or> pa \<ge> PHYSTOP L then Inl (Panic ''kfree'')
      else if \<not> in_ref L (pa div PGSIZE) then Inl OutOfBounds
      else
        let s1 = s\<lparr>ref := (ref s)(pa div PGSIZE := ref s (pa div PGSIZE) - 1)\<rparr> in
        if ref s1 (pa div PGSIZE) = 0 then
          Inr (s1\<lparr>mem := write64 (memset (mem s1) pa 1 PGSIZE) pa (freelist_head s1),
                  freelist := pa # freelist s1\<rparr>)
        else Inr s1)"

definition kalloc :: "layout \<Rightarrow> kmem \<Rightarrow> error + (u64 \<times> kmem)" where
  "kalloc L s =
     (let r = freelist_head s;
          s1 = (if r \<noteq> 0 then s\<lparr>freelist := tl (freelist s)\<rparr> else s) in
      if r \<noteq> 0 then
        if \<not> in_ref L (r div PGSIZE) then Inl OutOfBounds
        else Inr (r, s1\<lparr>mem := memset (mem s1) r 5 PGSIZE,
                        ref := (ref s1)(r div PGSIZE := 1)\<rparr>)
      else Inr (r, s1))"

text \<open>\<open>n\<close> consecutive calls of \<open>kalloc\<close>, with the pointers they return in call order.\<close>

fun kalloc_times :: "layout \<Rightarrow> nat \<Rightarrow> kmem \<Rightarrow> error + (u64 list \<times> kmem)" where
  "kalloc_times L 0 s = Inr ([], s)"
| "kalloc_times L (Suc n) s =
     (case kalloc L s of
        Inl e \<Rightarrow> Inl e
      | Inr (r, s1) \<Rightarrow>
          (case kalloc_times L n s1 of
             Inl e \<Rightarrow> Inl e
           | Inr (rs, s2) \<Rightarrow> Inr (r # rs, s2)))"

text \<open>
  What \<open>kfree\<close> guarantees of every page it chains into the free list: the address is not
  null, is page-aligned, lies in the managed range and indexes the \<open>ref\<close> table.
\<close>

definition freelist_ok :: "layout \<Rightarrow> kmem \<Rightarrow> bool" where
  "freelist_ok L s =
     (\<forall>r \<in> set (freelist s).
        r \<noteq> 0 \<and> r mod PGSIZE = 0 \<and> kend L \<le> r \<and> r < PHYSTOP L \<and> in_ref L (r div PGSIZE))"

subsection \<open>The page table, as the allocator sees it\<close>

text \<open>
  Modelled from the spec: \<open>walk\<close>, \<open>walkaddr\<close> and \<open>mappages\<close> (kernel/vm.c) and the PTE
  macros of \<open>riscv.h\<close> are not among the sources. The spec gives the page-table collaborator
  as \<open>lookupEntry(addressSpace, virtualAddress)\<close>, returning an entry or nothing, and
  \<open>installMapping(addressSpace, virtualAddress, physicalAddress, flags)\<close>, returning success or
  failure, and says that the copy-on-write flag is a dedicated flag distinct from the writable
  flag. A page table entry is the physical page number it holds and its set of flag bits; a
  page table maps virtual page numbers to entries. \<open>mappages\<close> refuses to overwrite a valid
  entry (the comment at the call in \<open>cowalloc\<close> says so); whether the collaborator manages to
  install the mapping is the argument \<open>ok\<close>, and a failed call changes nothing.
\<close>

datatype pte_flag = PTE_V | PTE_R | PTE_W | PTE_X | PTE_U | PTE_F

record pte =
  ppn :: u64
  flags :: "pte_flag set"

type_synonym pagetable = "u64 \<Rightarrow> pte option"

definition vpn :: "u64 \<Rightarrow> u64" where
  "vpn va = drop_bit 12 va"

definition PA2PTE :: "u64 \<Rightarrow> u64" where
  "PA2PTE pa = drop_bit 12 pa"

definition PTE2PA :: "pte \<Rightarrow> u64" where
  "PTE2PA e = push_bit 12 (ppn e)"

definition walk :: "pagetable \<Rightarrow> u64 \<Rightarrow> pte option" where
  "walk pt va = pt (vpn va)"

definition walkaddr :: "layout \<Rightarrow> pagetable \<Rightarrow> u64 \<Rightarrow> u64" where
  "walkaddr L pt va =
     (if va \<ge> MAXVA L then 0
      else case walk pt va of
        None \<Rightarrow> 0
      | Some e \<Rightarrow>
          if PTE_V \<notin> flags e then 0
          else if PTE_U \<notin> flags e then 0
          else PTE2PA e)"

definition mappages ::
  "bool \<Rightarrow> pagetable \<Rightarrow> u64 \<Rightarrow> u64 \<Rightarrow> u64 \<Rightarrow> pte_flag set \<Rightarrow> error + (int \<times> pagetable)" where
  "mappages ok pt va sz pa perm =
     (if \<not> ok then Inr (- 1, pt)
      else if (case walk pt va of None \<Rightarrow> False | Some e \<Rightarrow> PTE_V \<in> flags e)
        then Inl (Panic ''remap'')
      else Inr (0, pt(vpn va \<mapsto> \<lparr>ppn = PA2PTE pa, flags = insert PTE_V perm\<rparr>)))"

text \<open>An assignment through the pointer \<open>pte\<close> that \<open>walk\<close> returned: \<open>*pte = f (*pte)\<close>.\<close>

definition pte_assign :: "pagetable \<Rightarrow> u64 \<Rightarrow> (pte \<Rightarrow> pte) \<Rightarrow> pagetable" where
  "pte_assign pt va f = (case walk pt va of None \<Rightarrow> pt | Some e \<Rightarrow> pt(vpn va \<mapsto> f e))"

subsection \<open>cowpage and cowalloc\<close>

definition cowpage :: "layout \<Rightarrow> pagetable \<Rightarrow> u64 \<Rightarrow> int" where
  "cowpage L pt va =
     (if va \<ge> MAXVA L then - 1
      else case walk pt va of
        None \<Rightarrow> - 1
      | Some e \<Rightarrow>
          if PTE_V \<notin> flags e then - 1
          else if PTE_F \<in> flags e then 0 else - 1)"

text \<open>
  \<open>cowalloc\<close> returns the pointer, the page table and the allocator state. The pointer \<open>0\<close>
  is the failure return.
\<close>

definition cowalloc ::
  "layout \<Rightarrow> bool \<Rightarrow> pagetable \<Rightarrow> u64 \<Rightarrow> kmem \<Rightarrow> error + (u64 \<times> pagetable \<times> kmem)" where
  "cowalloc L ok pt va0 s =
     (let va = PGROUNDDOWN va0;
          pa = walkaddr L pt va in
      if pa = 0 then Inr (0, pt, s)
      else case walk pt va of
        None \<Rightarrow> Inr (0, pt, s)
      | Some e \<Rightarrow>
          if \<not> in_ref L (pa div PGSIZE) then Inl OutOfBounds
          else if ref s (pa div PGSIZE) = 1 then
            Inr (pa,
                 pte_assign (pte_assign pt va (\<lambda>e. e\<lparr>flags := insert PTE_W (flags e)\<rparr>)) va
                   (\<lambda>e. e\<lparr>flags := flags e - {PTE_F}\<rparr>),
                 s)
          else
            case kalloc L s of
              Inl err \<Rightarrow> Inl err
            | Inr (m, s1) \<Rightarrow>
                if m = 0 then Inr (0, pt, s1)
                else
                  let s2 = s1\<lparr>mem := memmove (mem s1) m pa PGSIZE\<rparr>;
                      pt1 = pte_assign pt va (\<lambda>e. e\<lparr>flags := flags e - {PTE_V}\<rparr>);
                      perm = (case walk pt1 va of None \<Rightarrow> {} | Some e1 \<Rightarrow> flags e1)
                  in
                  case mappages ok pt1 va PGSIZE m (insert PTE_W perm - {PTE_F}) of
                    Inl err \<Rightarrow> Inl err
                  | Inr (rc, pt2) \<Rightarrow>
                      if rc \<noteq> 0 then
                        (case kfree L m s2 of
                           Inl err \<Rightarrow> Inl err
                         | Inr s3 \<Rightarrow>
                             Inr (0,
                                  pte_assign pt2 va (\<lambda>e. e\<lparr>flags := insert PTE_V (flags e)\<rparr>),
                                  s3))
                      else
                        (case kfree L (PGROUNDDOWN pa) s2 of
                           Inl err \<Rightarrow> Inl err
                         | Inr s3 \<Rightarrow> Inr (m, pt2, s3)))"

subsection \<open>A concrete machine\<close>

text \<open>
  A layout with the kernel ending at \<open>0x80020000\<close> and 128 MB of RAM from \<open>0x80000000\<close>,
  and an allocator state with two free pages and one page shared by two owners.
\<close>

definition L0 :: layout where
  "L0 = \<lparr>kend = 0x80020000, PHYSTOP = 0x88000000, MAXVA = 0x4000000000\<rparr>"

definition k0 :: kmem where
  "k0 = \<lparr>freelist = [0x87fff000, 0x87ffe000], ref = (\<lambda>_. 0)(0x87000 := 2), mem = (\<lambda>_. 0)\<rparr>"

text \<open>A user page table with one copy-on-write entry, for the page at \<open>0x87000000\<close>.\<close>

definition e0 :: pte where
  "e0 = \<lparr>ppn = 0x87000, flags = {PTE_V, PTE_R, PTE_U, PTE_F}\<rparr>"

definition pt0 :: pagetable where
  "pt0 = Map.empty(1 \<mapsto> e0)"

section \<open>The buffer cache (kernel/bio.c)\<close>

subsection \<open>Buffers, buckets and locks\<close>

definition NBUCKET :: int where
  "NBUCKET = 13"

text \<open>
  \<open>int HASH(int id) { return id % NBUCKET; }\<close>: the remainder of C, which truncates towards
  zero and so is negative or zero for a negative \<open>id\<close>. \<open>bget\<close> passes a \<open>uint\<close> block number,
  which the call converts to \<open>int\<close> (\<open>sint\<close>).
\<close>

definition HASH :: "int \<Rightarrow> int" where
  "HASH x = (if 0 \<le> x then x mod NBUCKET else - ((- x) mod NBUCKET))"

text \<open>
  Modelled from the spec: \<open>buf.h\<close>, \<open>sleeplock.c\<close>, \<open>spinlock.c\<close> and \<open>virtio_disk.c\<close> are
  not among the sources. \<open>struct buf\<close> has the fields \<open>bio.c\<close> uses; \<open>locked\<close> is the state of the
  buffer's sleep-lock (the spec: an exclusive-access lock, held by at most one caller). The block
  device holds one block of data for every device and block number; \<open>virtio_disk_rw\<close> copies a
  block between the device and the buffer and is logged, so that reads and writes can be counted.
  Spin-lock operations are logged in call order, and with them the two list operations of
  \<open>bget\<close>, taking a buffer out of a bucket's list and linking it into one, so that their order
  relative to the lock operations can be stated.
\<close>

record buf =
  valid :: int
  dev :: u32
  blockno :: u32
  locked :: bool
  refcnt :: u32
  mticks :: u32
  data :: "u8 list"

datatype lock = Block | Bucket int | Tickslock

datatype lock_event = Acquire lock | Release lock | Unlink int nat | Link int nat

datatype io_event = DiskRead u32 u32 | DiskWrite u32 u32

text \<open>
  \<open>bcache.buf\<close> is the array of buffers, indexed by buffer number. \<open>head i\<close> is the circular
  list of bucket \<open>i\<close>, as the buffer numbers met from \<open>bcache.head[i].next\<close> along \<open>next\<close> until
  the sentinel is reached again.
\<close>

record bcache =
  buf :: "nat \<Rightarrow> buf"
  head :: "int \<Rightarrow> nat list"
  locklog :: "lock_event list"
  disk :: "u32 \<times> u32 \<Rightarrow> u8 list"
  iolog :: "io_event list"

definition acquire :: "lock \<Rightarrow> bcache \<Rightarrow> bcache" where
  "acquire l s = s\<lparr>locklog := locklog s @ [Acquire l]\<rparr>"

definition release :: "lock \<Rightarrow> bcache \<Rightarrow> bcache" where
  "release l s = s\<lparr>locklog := locklog s @ [Release l]\<rparr>"

text \<open>
  A call that does not return leaves a state too: \<open>panic\<close> stops the kernel after the locks
  have been released, and a caller that sleeps has been counted on its buffer. So a call of
  \<open>bget\<close> or \<open>bread\<close> ends with an error and the state at that point, or with the buffer and
  the state at the return.
\<close>

type_synonym 'a outcome = "(error \<times> bcache) + ('a \<times> bcache)"

subsection \<open>binit\<close>

text \<open>
  \<open>bcache\<close> is a global, so it starts zeroed. \<open>NBUF\<close> (\<open>param.h\<close>) and \<open>BSIZE\<close> (\<open>fs.h\<close>)
  are not among the sources and are parameters.
\<close>

definition zero_buf :: "nat \<Rightarrow> buf" where
  "zero_buf BSIZE =
     \<lparr>valid = 0, dev = 0, blockno = 0, locked = False, refcnt = 0, mticks = 0,
      data = replicate BSIZE 0\<rparr>"

definition boot :: "nat \<Rightarrow> (u32 \<times> u32 \<Rightarrow> u8 list) \<Rightarrow> bcache" where
  "boot BSIZE dsk =
     \<lparr>buf = (\<lambda>_. zero_buf BSIZE), head = (\<lambda>_. []), locklog = [], disk = dsk, iolog = []\<rparr>"

definition binit :: "nat \<Rightarrow> bcache \<Rightarrow> bcache" where
  "binit NBUF s =
     fold (\<lambda>b s. s\<lparr>head := (head s)(0 := b # head s 0)\<rparr>) [0..<NBUF]
       (s\<lparr>head := (\<lambda>_. [])\<rparr>)"

subsection \<open>bget\<close>

text \<open>The scan of a bucket for the block: the first buffer of the list with this key.\<close>

definition lookup :: "bcache \<Rightarrow> int \<Rightarrow> u32 \<Rightarrow> u32 \<Rightarrow> nat option" where
  "lookup s bid d bn = find (\<lambda>b. dev (buf s b) = d \<and> blockno (buf s b) = bn) (head s bid)"

text \<open>
  The scan of a bucket for a buffer to replace: the loop body of both replacement loops, with
  the running \<open>(min_ticks, p)\<close>; the null pointer is \<open>None\<close>.
\<close>

fun scan_free :: "(nat \<Rightarrow> buf) \<Rightarrow> nat list \<Rightarrow> u32 \<times> nat option \<Rightarrow> u32 \<times> nat option" where
  "scan_free bs [] acc = acc"
| "scan_free bs (b # rest) (min_ticks, p) =
     scan_free bs rest
       (if refcnt (bs b) = 0 \<and> (mticks (bs b) < min_ticks \<or> p = None)
        then (mticks (bs b), Some b)
        else (min_ticks, p))"

text \<open>\<open>b->refcnt++\<close> on a hit.\<close>

definition incref :: "nat \<Rightarrow> bcache \<Rightarrow> bcache" where
  "incref b s = s\<lparr>buf := (buf s)(b := (buf s b)\<lparr>refcnt := refcnt (buf s b) + 1\<rparr>)\<rparr>"

text \<open>The four assignments that give the buffer \<open>p\<close> to the block.\<close>

definition recycle :: "nat \<Rightarrow> u32 \<Rightarrow> u32 \<Rightarrow> bcache \<Rightarrow> bcache" where
  "recycle p d bn s =
     s\<lparr>buf := (buf s)(p := (buf s p)\<lparr>dev := d, blockno := bn,
                                      refcnt := refcnt (buf s p) + 1, valid := 0\<rparr>)\<rparr>"

text \<open>Taking the node \<open>p\<close> out of the list of bucket \<open>i\<close>, and linking it in after the sentinel of bucket \<open>bid\<close>.\<close>

definition unlink :: "int \<Rightarrow> nat \<Rightarrow> bcache \<Rightarrow> bcache" where
  "unlink i p s =
     s\<lparr>head := (head s)(i := remove1 p (head s i)), locklog := locklog s @ [Unlink i p]\<rparr>"

definition link_head :: "int \<Rightarrow> nat \<Rightarrow> bcache \<Rightarrow> bcache" where
  "link_head bid p s =
     s\<lparr>head := (head s)(bid := p # head s bid), locklog := locklog s @ [Link bid p]\<rparr>"

text \<open>
  The loop over the other buckets, from its current \<open>i\<close>, and what follows the loop when it
  has found nothing: the two releases and the panic. An index outside
  \<open>bcache.lock[NBUCKET]\<close> is an access outside the array.
\<close>

function steal :: "u32 \<Rightarrow> u32 \<Rightarrow> int \<Rightarrow> int \<Rightarrow> u32 \<Rightarrow> bcache \<Rightarrow> nat outcome" where
  "steal d bn bid i min_ticks s =
     (if \<not> (0 \<le> bid \<and> bid < NBUCKET \<and> 0 \<le> i \<and> i < NBUCKET) then Inl (OutOfBounds, s)
      else if i = bid then
        Inl (Panic ''bget: no buffers'', release Block (release (Bucket bid) s))
      else
        let s1 = acquire (Bucket i) s in
        case scan_free (buf s1) (head s1 i) (min_ticks, None) of
          (mt, Some p) \<Rightarrow>
            Inr (p, release Block (release (Bucket bid) (link_head bid p
                      (release (Bucket i) (unlink i p (recycle p d bn s1))))))
        | (mt, None) \<Rightarrow> steal d bn bid (HASH (i + 1)) mt (release (Bucket i) s1))"
  by pat_completeness auto
termination
proof (relation "measure (\<lambda>(d, bn, bid, i, mt, s). nat (if i \<le> bid then bid - i else bid - i + 13))")
  show "wf (measure (\<lambda>(d, bn, bid, i, mt, s). nat (if i \<le> bid then bid - i else bid - i + 13)))"
    by simp
next
  fix d bn :: u32 and bid i :: int and min_ticks :: u32 and s s1 :: bcache
    and x :: "u32 \<times> nat option" and mt :: u32 and p :: "nat option"
  assume r: "\<not> \<not> (0 \<le> bid \<and> bid < NBUCKET \<and> 0 \<le> i \<and> i < NBUCKET)" and ne: "i \<noteq> bid"
  have h: "HASH (i + 1) = (if i = 12 then 0 else i + 1)"
    using r by (simp add: HASH_def NBUCKET_def)
  show "((d, bn, bid, HASH (i + 1), mt, release (Bucket i) s1), (d, bn, bid, i, min_ticks, s))
       \<in> measure (\<lambda>(d, bn, bid, i, mt, s). nat (if i \<le> bid then bid - i else bid - i + 13))"
    using r ne unfolding h by (simp add: NBUCKET_def)
qed

declare steal.simps [simp del]

text \<open>
  \<open>bget\<close> from the point where it takes the eviction lock \<open>bcache.block\<close> (the first scan of
  the bucket has missed and the bucket lock is released) up to the release of the spin-locks:
  the second scan of the bucket, the replacement inside the bucket, the loop over the other
  buckets.
\<close>

definition bget_evict :: "u32 \<Rightarrow> u32 \<Rightarrow> int \<Rightarrow> bcache \<Rightarrow> nat outcome" where
  "bget_evict d bn bid s0 =
     (let s1 = acquire Block s0;
          s2 = acquire (Bucket bid) s1 in
      case lookup s2 bid d bn of
        Some b \<Rightarrow> Inr (b, release Block (release (Bucket bid) (incref b s2)))
      | None \<Rightarrow>
          (case scan_free (buf s2) (head s2 bid) (0, None) of
             (mt, Some p) \<Rightarrow>
               Inr (p, release Block (release (Bucket bid) (recycle p d bn s2)))
           | (mt, None) \<Rightarrow> steal d bn bid (HASH (bid + 1)) mt s2))"

text \<open>\<open>bget\<close> up to the release of the spin-locks, that is without its final \<open>acquiresleep\<close>.\<close>

definition bget_spin :: "u32 \<Rightarrow> u32 \<Rightarrow> bcache \<Rightarrow> nat outcome" where
  "bget_spin d bn s0 =
     (let bid = HASH (sint bn) in
      if \<not> (0 \<le> bid \<and> bid < NBUCKET) then Inl (OutOfBounds, s0)
      else
        let s1 = acquire (Bucket bid) s0 in
        case lookup s1 bid d bn of
          Some b \<Rightarrow> Inr (b, release (Bucket bid) (incref b s1))
        | None \<Rightarrow> bget_evict d bn bid (release (Bucket bid) s1))"

text \<open>
  \<open>acquiresleep\<close> returns once the sleep-lock is free. With the lock held the caller sleeps
  until the holder releases it, which a run of this caller alone never sees: the call ends
  with \<open>Sleeps\<close>, in the state in which the caller went to sleep.
\<close>

definition acquiresleep :: "nat \<Rightarrow> bcache \<Rightarrow> error + bcache" where
  "acquiresleep b s =
     (if locked (buf s b) then Inl (Sleeps b)
      else Inr (s\<lparr>buf := (buf s)(b := (buf s b)\<lparr>locked := True\<rparr>)\<rparr>))"

definition releasesleep :: "nat \<Rightarrow> bcache \<Rightarrow> bcache" where
  "releasesleep b s = s\<lparr>buf := (buf s)(b := (buf s b)\<lparr>locked := False\<rparr>)\<rparr>"

definition holdingsleep :: "nat \<Rightarrow> bcache \<Rightarrow> bool" where
  "holdingsleep b s = locked (buf s b)"

definition bget :: "u32 \<Rightarrow> u32 \<Rightarrow> bcache \<Rightarrow> nat outcome" where
  "bget d bn s =
     (case bget_spin d bn s of
        Inl e \<Rightarrow> Inl e
      | Inr (b, s1) \<Rightarrow>
          (case acquiresleep b s1 of
             Inl e \<Rightarrow> Inl (e, s1)
           | Inr s2 \<Rightarrow> Inr (b, s2)))"

subsection \<open>bread, bwrite, brelse, bpin, bunpin\<close>

definition virtio_disk_rw :: "nat \<Rightarrow> bool \<Rightarrow> bcache \<Rightarrow> bcache" where
  "virtio_disk_rw b write s =
     (let k = (dev (buf s b), blockno (buf s b)) in
      if write then
        s\<lparr>disk := (disk s)(k := data (buf s b)),
          iolog := iolog s @ [DiskWrite (fst k) (snd k)]\<rparr>
      else
        s\<lparr>buf := (buf s)(b := (buf s b)\<lparr>data := disk s k\<rparr>),
          iolog := iolog s @ [DiskRead (fst k) (snd k)]\<rparr>)"

text \<open>The part of \<open>bread\<close> after \<open>bget\<close> has returned the locked buffer.\<close>

definition bread_fill :: "nat \<Rightarrow> bcache \<Rightarrow> bcache" where
  "bread_fill b s =
     (if valid (buf s b) = 0 then
        let s1 = virtio_disk_rw b False s in
        s1\<lparr>buf := (buf s1)(b := (buf s1 b)\<lparr>valid := 1\<rparr>)\<rparr>
      else s)"

definition bread :: "u32 \<Rightarrow> u32 \<Rightarrow> bcache \<Rightarrow> nat outcome" where
  "bread d bn s =
     (case bget d bn s of
        Inl e \<Rightarrow> Inl e
      | Inr (b, s1) \<Rightarrow> Inr (b, bread_fill b s1))"

definition bwrite :: "nat \<Rightarrow> bcache \<Rightarrow> error + bcache" where
  "bwrite b s =
     (if \<not> holdingsleep b s then Inl (Panic ''bwrite'')
      else Inr (virtio_disk_rw b True s))"

text \<open>\<open>ticks\<close> is the global tick counter of the timer interrupt; \<open>brelse\<close> reads its value \<open>now\<close>.\<close>

definition brelse :: "u32 \<Rightarrow> nat \<Rightarrow> bcache \<Rightarrow> error + bcache" where
  "brelse now b s =
     (if \<not> holdingsleep b s then Inl (Panic ''brelse'')
      else
        let s1 = releasesleep b s;
            bid = HASH (sint (blockno (buf s1 b))) in
        if \<not> (0 \<le> bid \<and> bid < NBUCKET) then Inl OutOfBounds
        else
          let s2 = acquire (Bucket bid) s1;
              s3 = s2\<lparr>buf := (buf s2)(b := (buf s2 b)\<lparr>refcnt := refcnt (buf s2 b) - 1\<rparr>)\<rparr>;
              s4 = (if refcnt (buf s3 b) = 0 then
                      let s5 = acquire Tickslock s3;
                          s6 = s5\<lparr>buf := (buf s5)(b := (buf s5 b)\<lparr>mticks := now\<rparr>)\<rparr>
                      in release Tickslock s6
                    else s3)
          in Inr (release (Bucket bid) s4))"

definition bpin :: "nat \<Rightarrow> bcache \<Rightarrow> error + bcache" where
  "bpin b s =
     (let bid = HASH (sint (blockno (buf s b))) in
      if \<not> (0 \<le> bid \<and> bid < NBUCKET) then Inl OutOfBounds
      else
        let s1 = acquire (Bucket bid) s;
            s2 = s1\<lparr>buf := (buf s1)(b := (buf s1 b)\<lparr>refcnt := refcnt (buf s1 b) + 1\<rparr>)\<rparr>
        in Inr (release (Bucket bid) s2))"

definition bunpin :: "nat \<Rightarrow> bcache \<Rightarrow> error + bcache" where
  "bunpin b s =
     (let bid = HASH (sint (blockno (buf s b))) in
      if \<not> (0 \<le> bid \<and> bid < NBUCKET) then Inl OutOfBounds
      else
        let s1 = acquire (Bucket bid) s;
            s2 = s1\<lparr>buf := (buf s1)(b := (buf s1 b)\<lparr>refcnt := refcnt (buf s1 b) - 1\<rparr>)\<rparr>
        in Inr (release (Bucket bid) s2))"

text \<open>A holder of the buffer's sleep-lock overwrites the block in the buffer.\<close>

definition store_data :: "nat \<Rightarrow> u8 list \<Rightarrow> bcache \<Rightarrow> bcache" where
  "store_data b c s = s\<lparr>buf := (buf s)(b := (buf s b)\<lparr>data := c\<rparr>)\<rparr>"

subsection \<open>Specification of the replacement scan\<close>

text \<open>
  The buffer of the list \<open>xs\<close> that is least recently used among those nobody holds: its
  count is 0, no buffer of \<open>xs\<close> with count 0 has older ticks, and those met before it in
  the scan have strictly newer ticks.
\<close>

definition lru_first :: "(nat \<Rightarrow> buf) \<Rightarrow> nat list \<Rightarrow> nat \<Rightarrow> bool" where
  "lru_first bs xs p =
     (p \<in> set xs \<and> refcnt (bs p) = 0 \<and>
      (\<forall>b \<in> set xs. refcnt (bs b) = 0 \<longrightarrow> mticks (bs p) \<le> mticks (bs b)) \<and>
      (\<forall>b \<in> set (takeWhile (\<lambda>x. x \<noteq> p) xs). refcnt (bs b) = 0 \<longrightarrow> mticks (bs p) < mticks (bs b)))"

text \<open>
  The spin-lock events of the loop over the other buckets while it visits \<open>m\<close> buckets and
  finds nothing, from the bucket \<open>a\<close> places after \<open>bid\<close> on; and the events of the loop in
  the bucket \<open>j\<close> where it finds the buffer \<open>p\<close>, up to the linking into the target bucket.
\<close>

definition scan_events :: "int \<Rightarrow> int \<Rightarrow> nat \<Rightarrow> lock_event list" where
  "scan_events bid a m =
     concat (map (\<lambda>k. [Acquire (Bucket ((bid + a + int k) mod 13)),
                        Release (Bucket ((bid + a + int k) mod 13))]) [0..<m])"

definition move_events :: "int \<Rightarrow> int \<Rightarrow> nat \<Rightarrow> lock_event list" where
  "move_events bid j p = [Acquire (Bucket j), Unlink j p, Release (Bucket j), Link bid p]"

text \<open>
  The states \<open>bget\<close> leaves behind on its three kinds of return, with the spin-lock events
  \<open>evs\<close> of the call: a hit on the buffer \<open>b\<close>; the buffer \<open>p\<close> of the target bucket taken for
  the block; the buffer \<open>p\<close> of bucket \<open>j\<close> taken for the block and moved to the front of
  bucket \<open>bid\<close>.
\<close>

definition hit :: "nat \<Rightarrow> lock_event list \<Rightarrow> bcache \<Rightarrow> bcache" where
  "hit b evs s =
     s\<lparr>buf := (buf s)(b := (buf s b)\<lparr>refcnt := refcnt (buf s b) + 1\<rparr>),
       locklog := locklog s @ evs\<rparr>"

definition taken :: "u32 \<Rightarrow> u32 \<Rightarrow> nat \<Rightarrow> lock_event list \<Rightarrow> bcache \<Rightarrow> bcache" where
  "taken d bn p evs s =
     s\<lparr>buf := (buf s)(p := (buf s p)\<lparr>dev := d, blockno := bn, refcnt := 1, valid := 0\<rparr>),
       locklog := locklog s @ evs\<rparr>"

definition moved :: "u32 \<Rightarrow> u32 \<Rightarrow> int \<Rightarrow> int \<Rightarrow> nat \<Rightarrow> lock_event list \<Rightarrow> bcache \<Rightarrow> bcache" where
  "moved d bn bid j p evs s =
     s\<lparr>buf := (buf s)(p := (buf s p)\<lparr>dev := d, blockno := bn, refcnt := 1, valid := 0\<rparr>),
       head := (head s)(j := remove1 p (head s j), bid := p # head s bid),
       locklog := locklog s @ evs\<rparr>"

subsection \<open>Concrete caches\<close>

text \<open>
  A cache of two buffers and 4-byte blocks right after \<open>binit\<close>, and the same cache after block
  1 has been read and released at tick 5 and block 2 has been read and released at tick 10.
\<close>

definition cache2 :: bcache where
  "cache2 = binit 2 (boot 4 (\<lambda>_. [1, 2, 3, 4]))"

definition aged2_run :: "error + bcache" where
  "aged2_run =
     (case bread 1 1 cache2 of
        Inl (e, _) \<Rightarrow> Inl e
      | Inr (b, s) \<Rightarrow>
          (case brelse 5 b s of
             Inl e \<Rightarrow> Inl e
           | Inr s \<Rightarrow>
               (case bread 1 2 s of
                  Inl (e, _) \<Rightarrow> Inl e
                | Inr (b, s) \<Rightarrow> brelse 10 b s)))"

definition aged2 :: bcache where
  "aged2 =
     \<lparr>buf = (\<lambda>_. zero_buf 4)
         (0 := \<lparr>valid = 1, dev = 1, blockno = 2, locked = False, refcnt = 0, mticks = 10,
                data = [1, 2, 3, 4]\<rparr>,
          1 := \<lparr>valid = 1, dev = 1, blockno = 1, locked = False, refcnt = 0, mticks = 5,
                data = [1, 2, 3, 4]\<rparr>),
      head = (\<lambda>_. [])(1 := [1], 2 := [0]),
      locklog = [], disk = (\<lambda>_. [1, 2, 3, 4]), iolog = []\<rparr>"

text \<open>
  The cache of two buffers with block 1 read, pinned and released (the buffer is still counted
  once and its sleep-lock is free), and with both buffers counted once.
\<close>

definition pinned2_run :: "error + bcache" where
  "pinned2_run =
     (case bread 1 1 cache2 of
        Inl (e, _) \<Rightarrow> Inl e
      | Inr (b, s) \<Rightarrow>
          (case bpin b s of
             Inl e \<Rightarrow> Inl e
           | Inr s \<Rightarrow> brelse 5 b s))"

definition pinned2 :: bcache where
  "pinned2 =
     \<lparr>buf = (\<lambda>_. zero_buf 4)
         (1 := \<lparr>valid = 1, dev = 1, blockno = 1, locked = False, refcnt = 1, mticks = 0,
                data = [1, 2, 3, 4]\<rparr>),
      head = (\<lambda>_. [])(0 := [0], 1 := [1]),
      locklog = [], disk = (\<lambda>_. [1, 2, 3, 4]), iolog = []\<rparr>"

definition busy2 :: bcache where
  "busy2 = cache2\<lparr>buf := (\<lambda>_. (zero_buf 4)\<lparr>refcnt := 1\<rparr>)\<rparr>"

text \<open>
  What a call returned: the buffer, and a field of a buffer in the state it left; the error
  of a call that did not return; the state a call ended in, returning or not.
\<close>

definition result_buf :: "nat outcome \<Rightarrow> nat option" where
  "result_buf r = (case r of Inl _ \<Rightarrow> None | Inr (b, _) \<Rightarrow> Some b)"

definition field_after :: "(buf \<Rightarrow> 'a) \<Rightarrow> nat \<Rightarrow> nat outcome \<Rightarrow> 'a option" where
  "field_after f b r = (case r of Inl _ \<Rightarrow> None | Inr (_, s) \<Rightarrow> Some (f (buf s b)))"

definition result_error :: "nat outcome \<Rightarrow> error option" where
  "result_error r = (case r of Inl (e, _) \<Rightarrow> Some e | Inr _ \<Rightarrow> None)"

definition end_state :: "nat outcome \<Rightarrow> bcache" where
  "end_state r = (case r of Inl (_, s) \<Rightarrow> s | Inr (_, s) \<Rightarrow> s)"

definition state_after :: "error + bcache \<Rightarrow> bcache option" where
  "state_after r = (case r of Inl _ \<Rightarrow> None | Inr s \<Rightarrow> Some s)"

text \<open>
  Runs of calls, one caller at a time: a caller reads a block and keeps the buffer, the holder
  of a buffer releases it at a tick, writes it to the device, or changes its data.
\<close>

datatype call = Bread u32 u32 | Brelse u32 nat | Bwrite nat | Store nat "u8 list"

fun run_calls :: "call list \<Rightarrow> bcache \<Rightarrow> error + bcache" where
  "run_calls [] s = Inr s"
| "run_calls (Bread d bn # cs) s =
     (case bread d bn s of Inl (e, _) \<Rightarrow> Inl e | Inr (_, s') \<Rightarrow> run_calls cs s')"
| "run_calls (Brelse now b # cs) s =
     (case brelse now b s of Inl e \<Rightarrow> Inl e | Inr s' \<Rightarrow> run_calls cs s')"
| "run_calls (Bwrite b # cs) s =
     (case bwrite b s of Inl e \<Rightarrow> Inl e | Inr s' \<Rightarrow> run_calls cs s')"
| "run_calls (Store b c # cs) s = run_calls cs (store_data b c s)"

text \<open>The state after a run, which is the state before it if the run stops with an error.\<close>

definition after :: "call list \<Rightarrow> bcache \<Rightarrow> bcache" where
  "after cs s = (case run_calls cs s of Inl _ \<Rightarrow> s | Inr s' \<Rightarrow> s')"

text \<open>
  A cache of seven buffers and 4-byte blocks. The blocks 13, 1, 2, 15, 28, 41 and 3 of device 1
  are read in this order by callers that keep their buffers, which fills the buckets 0, 1, 2 and
  3 from the initial list of bucket 0; then the buffer of block 3 is released at tick 2, those
  of the blocks 28 and 15 at tick 5 and that of block 41 at tick 10. \<open>aged7\<close> is the state
  this run leaves, without the logs: bucket 0 holds buffer 6 and bucket 1 buffer 5, both in
  use; bucket 2 holds the buffers 1, 2, 3, 4 in this order, with ticks 10, 5, 5 and buffer 4
  in use; bucket 3 holds buffer 0, free with ticks 2.
\<close>

definition aged7_run :: "error + bcache" where
  "aged7_run =
     run_calls
       [Bread 1 13, Bread 1 1, Bread 1 2, Bread 1 15, Bread 1 28, Bread 1 41, Bread 1 3,
        Brelse 2 0, Brelse 5 2, Brelse 5 3, Brelse 10 1]
       (binit 7 (boot 4 (\<lambda>_. [1, 2, 3, 4])))"

definition aged7 :: bcache where
  "aged7 =
     \<lparr>buf = (\<lambda>_. zero_buf 4)
         (0 := \<lparr>valid = 1, dev = 1, blockno = 3, locked = False, refcnt = 0, mticks = 2,
                data = [1, 2, 3, 4]\<rparr>,
          1 := \<lparr>valid = 1, dev = 1, blockno = 41, locked = False, refcnt = 0, mticks = 10,
                data = [1, 2, 3, 4]\<rparr>,
          2 := \<lparr>valid = 1, dev = 1, blockno = 28, locked = False, refcnt = 0, mticks = 5,
                data = [1, 2, 3, 4]\<rparr>,
          3 := \<lparr>valid = 1, dev = 1, blockno = 15, locked = False, refcnt = 0, mticks = 5,
                data = [1, 2, 3, 4]\<rparr>,
          4 := \<lparr>valid = 1, dev = 1, blockno = 2, locked = True, refcnt = 1, mticks = 0,
                data = [1, 2, 3, 4]\<rparr>,
          5 := \<lparr>valid = 1, dev = 1, blockno = 1, locked = True, refcnt = 1, mticks = 0,
                data = [1, 2, 3, 4]\<rparr>,
          6 := \<lparr>valid = 1, dev = 1, blockno = 13, locked = True, refcnt = 1, mticks = 0,
                data = [1, 2, 3, 4]\<rparr>),
      head = (\<lambda>_. [])(0 := [6], 1 := [5], 2 := [1, 2, 3, 4], 3 := [0]),
      locklog = [], disk = (\<lambda>_. [1, 2, 3, 4]), iolog = []\<rparr>"

text \<open>
  The cache of two buffers after a first caller's \<open>bget\<close> for block 1 of device 1 has released
  its spin-locks: the caller is counted on the buffer and has not taken the sleep-lock yet.
\<close>

definition fetched2 :: bcache where
  "fetched2 = (case bget_spin 1 1 cache2 of Inl _ \<Rightarrow> cache2 | Inr (b, s) \<Rightarrow> s)"

text \<open>
  The cache of two buffers after block 1 of device 1 has been read by a caller that keeps the
  buffer; then after this caller has put the bytes 9, 9, 9, 9 in the buffer, written it to the
  device and released it at tick 5; then after another caller has read block 14, which takes
  the same buffer.
\<close>

definition held2 :: bcache where
  "held2 = after [Bread 1 1] cache2"

definition committed2 :: bcache where
  "committed2 = after [Store 1 [9, 9, 9, 9], Bwrite 1, Brelse 5 1] held2"

definition evicted2 :: bcache where
  "evicted2 = after [Bread 1 14] committed2"

subsection \<open>The lock discipline, as a check of a list of lock events\<close>

text \<open>
  \<open>lock_order bid held evs\<close> runs through the events \<open>evs\<close> of a caller that holds the locks
  \<open>held\<close> and checks the order of \<open>bget\<close>'s miss path for the target bucket \<open>bid\<close>: the
  eviction lock is taken with no bucket lock held; a bucket lock is taken with the eviction
  lock held; a bucket other than the target is locked only with the target's lock held and no
  third bucket lock held; only held locks are released; a buffer is taken out of a list with
  the lock of that bucket held; a buffer is linked into the list of the target bucket only,
  with the target's lock as the only bucket lock held.
\<close>

definition is_bucket :: "lock \<Rightarrow> bool" where
  "is_bucket l = (case l of Bucket _ \<Rightarrow> True | _ \<Rightarrow> False)"

fun lock_order :: "int \<Rightarrow> lock list \<Rightarrow> lock_event list \<Rightarrow> bool" where
  "lock_order bid held [] = True"
| "lock_order bid held (Acquire l # evs) =
     ((case l of
         Block \<Rightarrow> filter is_bucket held = []
       | Bucket i \<Rightarrow>
           Block \<in> set held \<and> Bucket i \<notin> set held \<and>
           (if i = bid then filter is_bucket held = []
            else filter is_bucket held = [Bucket bid])
       | Tickslock \<Rightarrow> True) \<and>
      lock_order bid (l # held) evs)"
| "lock_order bid held (Release l # evs) =
     (l \<in> set held \<and> lock_order bid (remove1 l held) evs)"
| "lock_order bid held (Unlink i p # evs) =
     (Bucket i \<in> set held \<and> lock_order bid held evs)"
| "lock_order bid held (Link i p # evs) =
     (i = bid \<and> filter is_bucket held = [Bucket bid] \<and> lock_order bid held evs)"

text \<open>The locks held after a list of events, the latest first.\<close>

fun held_after :: "lock list \<Rightarrow> lock_event list \<Rightarrow> lock list" where
  "held_after held [] = held"
| "held_after held (Acquire l # evs) = held_after (l # held) evs"
| "held_after held (Release l # evs) = held_after (remove1 l held) evs"
| "held_after held (Unlink i p # evs) = held_after held evs"
| "held_after held (Link i p # evs) = held_after held evs"

definition log_after :: "nat outcome \<Rightarrow> lock_event list" where
  "log_after r = locklog (end_state r)"

subsection \<open>Reachable states of the cache\<close>

text \<open>
  A buffer is in use when it is valid, counted or locked. The invariant of the cache: only
  the buckets 0 to 12 hold buffers; a list holds a buffer once; a buffer is in the bucket of its
  block number; a buffer in use is the first of its bucket with its key, the one a scan for
  the key finds; a buffer in use is in a bucket.
\<close>

definition used :: "buf \<Rightarrow> bool" where
  "used b = (valid b \<noteq> 0 \<or> refcnt b \<noteq> 0 \<or> locked b)"

definition cache_inv :: "bcache \<Rightarrow> bool" where
  "cache_inv s =
     ((\<forall>i. head s i \<noteq> [] \<longrightarrow> 0 \<le> i \<and> i < 13) \<and>
      (\<forall>i. distinct (head s i)) \<and>
      (\<forall>i. \<forall>b \<in> set (head s i). HASH (sint (blockno (buf s b))) = i) \<and>
      (\<forall>i. \<forall>b \<in> set (head s i).
         used (buf s b) \<longrightarrow> lookup s i (dev (buf s b)) (blockno (buf s b)) = Some b) \<and>
      (\<forall>b. used (buf s b) \<longrightarrow> (\<exists>i. b \<in> set (head s i))))"

text \<open>
  The states the cache goes through from \<open>binit\<close> on, each critical section of a caller taken
  as one step: a whole \<open>bget\<close> up to its \<open>acquiresleep\<close>; the part of \<open>bget\<close> from the eviction
  lock on, for a caller whose first scan missed earlier (other callers have run in between);
  the \<open>acquiresleep\<close> of a caller whom \<open>bget\<close> has counted on the buffer; the read of
  \<open>bread\<close>, a change of the data and \<open>bwrite\<close>, \<open>brelse\<close>, \<open>bpin\<close>, \<open>bunpin\<close> by the holder of
  the buffer's sleep-lock (the header of bio.c: a buffer is used between \<open>bread\<close> and
  \<open>brelse\<close>).
\<close>

inductive reachable :: "bcache \<Rightarrow> bool" where
  init: "reachable (binit NBUF (boot BSIZE dsk))"
| spin: "reachable s \<Longrightarrow> bget_spin d bn s = Inr (b, s') \<Longrightarrow> reachable s'"
| evict: "reachable s \<Longrightarrow> 0 \<le> HASH (sint bn) \<Longrightarrow>
          bget_evict d bn (HASH (sint bn)) s = Inr (b, s') \<Longrightarrow> reachable s'"
| sleep: "reachable s \<Longrightarrow> refcnt (buf s b) \<noteq> 0 \<Longrightarrow> acquiresleep b s = Inr s' \<Longrightarrow>
          reachable s'"
| fill: "reachable s \<Longrightarrow> holdingsleep b s \<Longrightarrow> reachable (bread_fill b s)"
| store: "reachable s \<Longrightarrow> holdingsleep b s \<Longrightarrow> reachable (store_data b c s)"
| commit: "reachable s \<Longrightarrow> bwrite b s = Inr s' \<Longrightarrow> reachable s'"
| rel: "reachable s \<Longrightarrow> brelse now b s = Inr s' \<Longrightarrow> reachable s'"
| pin: "reachable s \<Longrightarrow> holdingsleep b s \<Longrightarrow> bpin b s = Inr s' \<Longrightarrow> reachable s'"
| unpin: "reachable s \<Longrightarrow> holdingsleep b s \<Longrightarrow> bunpin b s = Inr s' \<Longrightarrow> reachable s'"

section \<open>Properties of the page allocator\<close>

lemma in_ref_aligned:
  assumes "PHYSTOP L mod PGSIZE = 0" and "pa < PHYSTOP L"
  shows "in_ref L (pa div PGSIZE)"
proof -
  have a: "unat pa < unat (PHYSTOP L)"
    using assms(2) by (simp add: word_less_nat_alt)
  have "unat (PHYSTOP L mod PGSIZE) = 0"
    using assms(1) by simp
  then have b: "unat (PHYSTOP L) mod 4096 = 0"
    by (simp add: PGSIZE_def unat_mod_distrib)
  have "unat pa div 4096 < unat (PHYSTOP L) div 4096"
    using a b by (metis div_less_iff_less_mult mod_0_imp_dvd dvd_div_mult_self zero_less_numeral)
  then show ?thesis
    by (simp add: in_ref_def PGSIZE_def word_less_nat_alt unat_div_distrib)
qed

lemma word_dec_zero: "(x::u32) - 1 = 0 \<longleftrightarrow> x = 1"
  by auto

lemma pg_mask: "PGSIZE - 1 = mask 12"
  by (simp add: mask_eq_exp_minus_1 PGSIZE_def)

lemma PGROUNDDOWN_PTE2PA: "PGROUNDDOWN (PTE2PA e) = PTE2PA e"
  unfolding PGROUNDDOWN_def PTE2PA_def pg_mask
  by (rule bit_eqI) (auto simp add: bit_simps)

lemma aligned_take_bit: "(w::u64) mod PGSIZE = 0 \<longleftrightarrow> take_bit 12 w = 0"
  by (simp add: PGSIZE_def take_bit_eq_mod)

lemma PTE2PA_aligned: "PTE2PA e mod PGSIZE = 0"
  by (simp add: aligned_take_bit PTE2PA_def take_bit_push_bit)

lemma kfree_ok:
  assumes "pa mod PGSIZE = 0" "kend L \<le> pa" "pa < PHYSTOP L" "in_ref L (pa div PGSIZE)"
  shows "kfree L pa s =
    Inr (if ref s (pa div PGSIZE) = 1
         then s\<lparr>ref := (ref s)(pa div PGSIZE := 0),
                mem := write64 (memset (mem s) pa 1 PGSIZE) pa (freelist_head s),
                freelist := pa # freelist s\<rparr>
         else s\<lparr>ref := (ref s)(pa div PGSIZE := ref s (pa div PGSIZE) - 1)\<rparr>)"
proof -
  have "\<not> pa < kend L" "\<not> PHYSTOP L \<le> pa"
    using assms(2,3) by auto
  then show ?thesis
    using assms(1,4) by (simp add: kfree_def Let_def freelist_head_def word_dec_zero)
qed

lemma kalloc_cons:
  assumes "freelist s = r # rs" "r \<noteq> 0" "in_ref L (r div PGSIZE)"
  shows "kalloc L s = Inr (r, s\<lparr>freelist := rs, mem := memset (mem s) r 5 PGSIZE, ref := (ref s)(r div PGSIZE := 1)\<rparr>)"
  using assms by (simp add: kalloc_def freelist_head_def Let_def)

lemma kalloc_nil: "freelist s = [] \<Longrightarrow> kalloc L s = Inr (0, s)"
  by (simp add: kalloc_def freelist_head_def Let_def)

lemma cowalloc_sole:
  assumes w: "walk pt (PGROUNDDOWN va) = Some e"
    and v: "PTE_V \<in> flags e" and u: "PTE_U \<in> flags e"
    and mx: "PGROUNDDOWN va < MAXVA L"
    and nz: "PTE2PA e \<noteq> 0"
    and ir: "in_ref L (PTE2PA e div PGSIZE)"
    and r1: "ref s (PTE2PA e div PGSIZE) = 1"
  shows "cowalloc L ok pt va s =
     Inr (PTE2PA e, pt(vpn (PGROUNDDOWN va) \<mapsto> e\<lparr>flags := insert PTE_W (flags e) - {PTE_F}\<rparr>), s)"
  using assms
  by (simp add: cowalloc_def Let_def walkaddr_def pte_assign_def walk_def)

lemma cowalloc_nomem:
  assumes w: "walk pt (PGROUNDDOWN va) = Some e"
    and v: "PTE_V \<in> flags e" and u: "PTE_U \<in> flags e"
    and mx: "PGROUNDDOWN va < MAXVA L"
    and nz: "PTE2PA e \<noteq> 0"
    and ir: "in_ref L (PTE2PA e div PGSIZE)"
    and r1: "ref s (PTE2PA e div PGSIZE) \<noteq> 1"
    and fl: "freelist s = []"
  shows "cowalloc L ok pt va s = Inr (0, pt, s)"
  using assms
  by (simp add: cowalloc_def Let_def walkaddr_def kalloc_nil)

lemma cowalloc_copy:
  assumes w: "walk pt (PGROUNDDOWN va) = Some e"
    and v: "PTE_V \<in> flags e" and u: "PTE_U \<in> flags e"
    and mx: "PGROUNDDOWN va < MAXVA L"
    and nz: "PTE2PA e \<noteq> 0"
    and ir: "in_ref L (PTE2PA e div PGSIZE)"
    and rg: "kend L \<le> PTE2PA e" "PTE2PA e < PHYSTOP L"
    and r1: "ref s (PTE2PA e div PGSIZE) \<noteq> 1"
    and fl: "freelist s = m # rest" "m \<noteq> 0" "in_ref L (m div PGSIZE)"
    and ne: "m div PGSIZE \<noteq> PTE2PA e div PGSIZE"
  shows "cowalloc L True pt va s =
     Inr (m,
          pt(vpn (PGROUNDDOWN va) \<mapsto> \<lparr>ppn = PA2PTE m, flags = insert PTE_W (flags e) - {PTE_F}\<rparr>),
          s\<lparr>freelist := rest,
            mem := memmove (memset (mem s) m 5 PGSIZE) m (PTE2PA e) PGSIZE,
            ref := (ref s)(m div PGSIZE := 1,
                           PTE2PA e div PGSIZE := ref s (PTE2PA e div PGSIZE) - 1)\<rparr>)"
proof -
  let ?pa = "PTE2PA e"
  let ?s1 = "s\<lparr>freelist := rest, mem := memset (mem s) m 5 PGSIZE, ref := (ref s)(m div PGSIZE := 1)\<rparr>"
  let ?s2 = "?s1\<lparr>mem := memmove (mem ?s1) m ?pa PGSIZE\<rparr>"
  have k: "kalloc L s = Inr (m, ?s1)" by (rule kalloc_cons[OF fl])
  have fe: "insert PTE_V (insert PTE_W (flags e - {PTE_V}) - {PTE_F}) = insert PTE_W (flags e) - {PTE_F}"
    using v by auto
  have mx': "\<not> MAXVA L \<le> PGROUNDDOWN va" using mx by simp
  show ?thesis
    using w v u mx' nz ir r1 fl(2) ne rg
    by (simp add: cowalloc_def Let_def walkaddr_def k pte_assign_def mappages_def walk_def fe
        kfree_ok PGROUNDDOWN_PTE2PA PTE2PA_aligned)
qed

lemma cowalloc_mapfail:
  assumes w: "walk pt (PGROUNDDOWN va) = Some e"
    and v: "PTE_V \<in> flags e" and u: "PTE_U \<in> flags e"
    and mx: "PGROUNDDOWN va < MAXVA L"
    and nz: "PTE2PA e \<noteq> 0"
    and ir: "in_ref L (PTE2PA e div PGSIZE)"
    and r1: "ref s (PTE2PA e div PGSIZE) \<noteq> 1"
    and fl: "freelist s = m # rest" "m \<noteq> 0" "in_ref L (m div PGSIZE)"
    and mg: "m mod PGSIZE = 0" "kend L \<le> m" "m < PHYSTOP L"
  shows "cowalloc L False pt va s =
     Inr (0, pt,
          s\<lparr>ref := (ref s)(m div PGSIZE := 0),
            mem := write64 (memset (memmove (memset (mem s) m 5 PGSIZE) m (PTE2PA e) PGSIZE) m 1 PGSIZE)
                     m (freelist_head (s\<lparr>freelist := rest\<rparr>))\<rparr>)"
proof -
  let ?s1 = "s\<lparr>freelist := rest, mem := memset (mem s) m 5 PGSIZE, ref := (ref s)(m div PGSIZE := 1)\<rparr>"
  have k: "kalloc L s = Inr (m, ?s1)" by (rule kalloc_cons[OF fl])
  have mx': "\<not> MAXVA L \<le> PGROUNDDOWN va" using mx by simp
  have pe: "pt(vpn (PGROUNDDOWN va) \<mapsto> e) = pt"
    using w by (auto simp: walk_def)
  have fe: "insert PTE_V (flags e) = flags e" using v by auto
  show ?thesis
    using w v u mx' nz ir r1 fl mg
    by (simp add: cowalloc_def Let_def walkaddr_def k pte_assign_def mappages_def walk_def
        kfree_ok freelist_head_def fe pe)
qed


lemma take_bit_pg_self: "(w::u64) < PGSIZE \<Longrightarrow> take_bit 12 w = w"
  by (simp add: take_bit_eq_mod PGSIZE_def mod_word_less)

lemma aligned_push_bit:
  assumes "(w::u64) mod PGSIZE = 0" shows "w = push_bit 12 (drop_bit 12 w)"
  using assms bits_ident[of 12 w] by (simp add: aligned_take_bit)

lemma aligned_diff:
  assumes "(a::u64) mod PGSIZE = 0" "b mod PGSIZE = 0"
  shows "(a - b) mod PGSIZE = 0"
proof -
  have "a - b = push_bit 12 (drop_bit 12 a) - push_bit 12 (drop_bit 12 b)"
    using aligned_push_bit[OF assms(1)] aligned_push_bit[OF assms(2)] by simp
  also have "\<dots> = push_bit 12 (drop_bit 12 a - drop_bit 12 b)"
    by (simp add: push_bit_eq_mult algebra_simps)
  finally show ?thesis by (simp add: take_bit_push_bit aligned_take_bit)
qed

lemma page_disjoint:
  assumes "m mod PGSIZE = 0" "pa mod PGSIZE = 0" "m \<noteq> pa" "k < PGSIZE"
  shows "\<not> (pa + k - m < PGSIZE)"
proof -
  define d where "d = pa - m"
  have "d mod PGSIZE = 0"
    using aligned_diff[OF assms(2,1)] by (simp add: d_def)
  then have "unat (d mod PGSIZE) = 0" by simp
  then have "unat d mod 4096 = 0"
    by (simp add: PGSIZE_def unat_mod_distrib)
  then obtain q where q: "unat d = 4096 * q"
    by (auto simp: mod_eq_0_iff_dvd)
  have "d \<noteq> 0" using assms(3) by (simp add: d_def)
  then have "unat d \<noteq> 0" by (simp add: unat_eq_0)
  then have q1: "1 \<le> q" using q by simp
  have "unat d < 2 ^ 64" using unsigned_less[of d, where ?'a = nat] by simp
  then have "4096 * q < 4096 * 2 ^ 52" using q by simp
  then have q2: "q + 1 \<le> 2 ^ 52" by simp
  have k: "unat k < 4096" using assms(4) by (simp add: PGSIZE_def word_less_nat_alt)
  have "unat d + unat k < 4096 * (q + 1)" using q k by simp
  also have "\<dots> \<le> 4096 * 2 ^ 52" using q2 by (rule mult_le_mono2)
  finally have nov: "unat d + unat k < 2 ^ 64" by simp
  have "unat (d + k) = (unat d + unat k) mod 2 ^ 64"
    by (simp add: unat_word_ariths)
  also have "\<dots> = unat d + unat k" using nov by (rule mod_less)
  finally have "4096 \<le> unat (d + k)" using q q1 by simp
  then have "\<not> (d + k < PGSIZE)" by (simp add: PGSIZE_def word_less_nat_alt)
  moreover have "d + k = pa + k - m" by (simp add: d_def)
  ultimately show ?thesis by simp
qed

lemma aligned_div_inj:
  assumes "(a::u64) mod PGSIZE = 0" "b mod PGSIZE = 0" "a div PGSIZE = b div PGSIZE"
  shows "a = b"
proof -
  have "drop_bit 12 a = drop_bit 12 b"
    using assms(3) by (simp add: drop_bit_eq_div PGSIZE_def)
  then show ?thesis
    using aligned_push_bit[OF assms(1)] aligned_push_bit[OF assms(2)] by simp
qed

lemma vpn_PGROUNDDOWN: "vpn (PGROUNDDOWN va) = vpn va"
  unfolding PGROUNDDOWN_def vpn_def pg_mask
  by (rule bit_eqI) (auto simp add: bit_simps dest: bit_imp_le_length)

lemma PGROUNDDOWN_le: "PGROUNDDOWN va \<le> va"
  unfolding PGROUNDDOWN_def by (rule word_and_le2)

lemma walk_PGROUNDDOWN: "walk pt (PGROUNDDOWN va) = walk pt va"
  by (simp add: walk_def vpn_PGROUNDDOWN)

lemma cowpage_0:
  "cowpage L pt va = 0 \<Longrightarrow> walk pt va = Some e \<Longrightarrow> PTE_V \<in> flags e \<and> PTE_F \<in> flags e \<and> va < MAXVA L"
  by (auto simp: cowpage_def split: if_splits)

lemma word_dec_unat:
  assumes "2 \<le> unat (x::u32)"
  shows "unat (x - 1) = unat x - 1 \<and> x - 1 \<noteq> 0 \<and> x \<noteq> 1"
proof -
  have "x \<noteq> 0" using assms by auto
  then have a: "unat (x - 1) = unat x - 1" by (rule unat_minus_one)
  then have "unat (x - 1) \<noteq> 0" using assms by simp
  then have b: "x - 1 \<noteq> 0" by (simp add: unat_eq_0)
  have c: "x \<noteq> 1" using assms by auto
  show ?thesis using a b c by simp
qed

subsection \<open>kfree\<close>

text \<open>The bytes of a page after \<open>kfree\<close> has filled it and stored the list pointer in it.\<close>

lemma kfree_page:
  "\<forall>a. 8 \<le> a - pa \<and> a - pa < PGSIZE \<longrightarrow> write64 (memset m pa 1 PGSIZE) pa v a = 1"
  "\<forall>a. a - pa < 8 \<longrightarrow>
     write64 (memset m pa 1 PGSIZE) pa v a = ucast (drop_bit (8 * unat (a - pa)) v)"
  "\<forall>a. \<not> a - pa < PGSIZE \<longrightarrow> write64 (memset m pa 1 PGSIZE) pa v a = m a"
proof -
  have lt: "x < PGSIZE" if "x < 8" for x :: u64
  proof -
    have "(8::u64) < PGSIZE" by (simp add: PGSIZE_def)
    with that show ?thesis by (rule less_trans)
  qed
  show "\<forall>a. 8 \<le> a - pa \<and> a - pa < PGSIZE \<longrightarrow> write64 (memset m pa 1 PGSIZE) pa v a = 1"
    by (simp add: write64_def memset_def not_less[symmetric])
  show "\<forall>a. a - pa < 8 \<longrightarrow>
     write64 (memset m pa 1 PGSIZE) pa v a = ucast (drop_bit (8 * unat (a - pa)) v)"
    by (simp add: write64_def)
  show "\<forall>a. \<not> a - pa < PGSIZE \<longrightarrow> write64 (memset m pa 1 PGSIZE) pa v a = m a"
    using lt by (auto simp add: write64_def memset_def)
qed

text \<open>
  C7. \<open>kfree\<close> on an address that is not page-aligned or lies outside the managed range
  \<open>[end, PHYSTOP)\<close> panics. Otherwise it decrements the page's reference count by one (the
  C decrement of a \<open>uint\<close>), and exactly when the count reaches 0 it fills the page with the
  junk byte 1, stores the old list head in the first eight bytes of the page and chains the page
  in front of the free list: afterwards every byte of the page from the ninth on is 1, the first
  eight bytes are the bytes of the old list head, and no byte outside the page has changed.
  When the count is still not 0, the free list and the whole memory are unchanged. \<open>PHYSTOP\<close> is taken to be a multiple of the page size, so that the table
  \<open>ref[PHYSTOP / PGSIZE]\<close> has an entry for every page below \<open>PHYSTOP\<close>.
\<close>

theorem kfree_spec:
  assumes "PHYSTOP L mod PGSIZE = 0"
  shows "(pa mod PGSIZE \<noteq> 0 \<or> pa < kend L \<or> PHYSTOP L \<le> pa \<longrightarrow>
            kfree L pa s = Inl (Panic ''kfree'')) \<and>
         (pa mod PGSIZE = 0 \<and> kend L \<le> pa \<and> pa < PHYSTOP L \<longrightarrow>
            (\<exists>s'. kfree L pa s = Inr s' \<and>
               ref s' = (ref s)(pa div PGSIZE := ref s (pa div PGSIZE) - 1) \<and>
               (ref s' (pa div PGSIZE) = 0 \<longrightarrow>
                  freelist s' = pa # freelist s \<and>
                  mem s' = write64 (memset (mem s) pa 1 PGSIZE) pa (freelist_head s) \<and>
                  (\<forall>a. 8 \<le> a - pa \<and> a - pa < PGSIZE \<longrightarrow> mem s' a = 1) \<and>
                  (\<forall>a. a - pa < 8 \<longrightarrow>
                     mem s' a = ucast (drop_bit (8 * unat (a - pa)) (freelist_head s))) \<and>
                  (\<forall>a. \<not> a - pa < PGSIZE \<longrightarrow> mem s' a = mem s a)) \<and>
               (ref s' (pa div PGSIZE) \<noteq> 0 \<longrightarrow>
                  freelist s' = freelist s \<and> mem s' = mem s)))"
proof -
  have "kfree L pa s = Inl (Panic ''kfree'')"
    if "pa mod PGSIZE \<noteq> 0 \<or> pa < kend L \<or> PHYSTOP L \<le> pa"
    using that by (auto simp: kfree_def)
  moreover have "\<exists>s'. kfree L pa s = Inr s' \<and>
               ref s' = (ref s)(pa div PGSIZE := ref s (pa div PGSIZE) - 1) \<and>
               (ref s' (pa div PGSIZE) = 0 \<longrightarrow>
                  freelist s' = pa # freelist s \<and>
                  mem s' = write64 (memset (mem s) pa 1 PGSIZE) pa (freelist_head s) \<and>
                  (\<forall>a. 8 \<le> a - pa \<and> a - pa < PGSIZE \<longrightarrow> mem s' a = 1) \<and>
                  (\<forall>a. a - pa < 8 \<longrightarrow>
                     mem s' a = ucast (drop_bit (8 * unat (a - pa)) (freelist_head s))) \<and>
                  (\<forall>a. \<not> a - pa < PGSIZE \<longrightarrow> mem s' a = mem s a)) \<and>
               (ref s' (pa div PGSIZE) \<noteq> 0 \<longrightarrow>
                  freelist s' = freelist s \<and> mem s' = mem s)"
    if h: "pa mod PGSIZE = 0 \<and> kend L \<le> pa \<and> pa < PHYSTOP L"
  proof -
    have ir: "in_ref L (pa div PGSIZE)"
      using in_ref_aligned[OF assms] h by simp
    show ?thesis
      using kfree_ok[of pa L s] h ir by (simp add: word_dec_zero kfree_page)
  qed
  ultimately show ?thesis by blast
qed

theorem kfree_spec_witness:
  "PHYSTOP L0 mod PGSIZE = 0 \<and>
   kfree L0 0x87000123 k0 = Inl (Panic ''kfree'') \<and>
   (\<exists>s'. kfree L0 0x87000000 k0 = Inr s' \<and> ref s' 0x87000 = 1 \<and> freelist s' = freelist k0 \<and>
      mem s' = mem k0) \<and>
   mem k0 0x87000010 = 0 \<and> mem k0 0x87000fff = 0 \<and> mem k0 0x87001000 = 0 \<and>
   (\<exists>s'. kfree L0 0x87000000 (k0\<lparr>ref := (\<lambda>_. 1)\<rparr>) = Inr s' \<and> ref s' 0x87000 = 0 \<and>
      freelist s' = 0x87000000 # freelist k0 \<and>
      mem s' 0x87000008 = 1 \<and> mem s' 0x87000010 = 1 \<and> mem s' 0x87000fff = 1 \<and>
      mem s' 0x87000000 = 0x00 \<and> mem s' 0x87000001 = 0xf0 \<and> mem s' 0x87000002 = 0xff \<and>
      mem s' 0x87000003 = 0x87 \<and> mem s' 0x87000004 = 0 \<and> mem s' 0x87000007 = 0 \<and>
      mem s' 0x87001000 = 0 \<and> mem s' 0x86ffffff = 0)"
proof -
  have a: "PHYSTOP L0 mod PGSIZE = 0" by (simp add: L0_def PGSIZE_def)
  have p: "kfree L0 0x87000123 k0 = Inl (Panic ''kfree'')"
    using kfree_spec[OF a, of "0x87000123" k0] by (simp add: PGSIZE_def)
  have r: "(0x87000000::u64) div PGSIZE = 0x87000" by (simp add: PGSIZE_def)
  have g: "(0x87000000::u64) mod PGSIZE = 0 \<and> kend L0 \<le> 0x87000000 \<and> 0x87000000 < PHYSTOP L0"
    by (simp add: L0_def PGSIZE_def)
  obtain s1 where s1: "kfree L0 0x87000000 k0 = Inr s1"
    "ref s1 = (ref k0)(0x87000 := ref k0 0x87000 - 1)"
    "ref s1 0x87000 \<noteq> 0 \<longrightarrow> freelist s1 = freelist k0 \<and> mem s1 = mem k0"
    using kfree_spec[OF a, of "0x87000000" k0] g unfolding r by blast
  have q1: "ref s1 0x87000 = 1" by (simp add: s1(2) k0_def)
  have q2: "freelist s1 = freelist k0" "mem s1 = mem k0" using s1(3) q1 by simp_all
  let ?k = "k0\<lparr>ref := (\<lambda>_. 1)\<rparr>"
  obtain s2 where s2: "kfree L0 0x87000000 ?k = Inr s2"
    "ref s2 = (ref ?k)(0x87000 := ref ?k 0x87000 - 1)"
    "ref s2 0x87000 = 0 \<longrightarrow>
       freelist s2 = 0x87000000 # freelist ?k \<and>
       mem s2 = write64 (memset (mem ?k) 0x87000000 1 PGSIZE) 0x87000000 (freelist_head ?k) \<and>
       (\<forall>a. 8 \<le> a - 0x87000000 \<and> a - 0x87000000 < PGSIZE \<longrightarrow> mem s2 a = 1) \<and>
       (\<forall>a. a - 0x87000000 < 8 \<longrightarrow>
          mem s2 a = ucast (drop_bit (8 * unat (a - 0x87000000)) (freelist_head ?k))) \<and>
       (\<forall>a. \<not> a - 0x87000000 < PGSIZE \<longrightarrow> mem s2 a = mem ?k a)"
    using kfree_spec[OF a, of "0x87000000" ?k] g unfolding r by blast
  have z: "ref s2 0x87000 = 0" by (simp add: s2(2))
  note f = s2(3)[rule_format, OF z]
  have h: "freelist_head ?k = 0x87fff000" by (simp add: freelist_head_def k0_def)
  have b1: "mem s2 0x87000008 = 1" "mem s2 0x87000010 = 1" "mem s2 0x87000fff = 1"
    using f[THEN conjunct2, THEN conjunct2, THEN conjunct1, rule_format, of "0x87000008"]
      f[THEN conjunct2, THEN conjunct2, THEN conjunct1, rule_format, of "0x87000010"]
      f[THEN conjunct2, THEN conjunct2, THEN conjunct1, rule_format, of "0x87000fff"]
    by (simp_all add: PGSIZE_def)
  have b2: "mem s2 0x87000000 = 0x00" "mem s2 0x87000001 = 0xf0" "mem s2 0x87000002 = 0xff"
    "mem s2 0x87000003 = 0x87" "mem s2 0x87000004 = 0" "mem s2 0x87000007 = 0"
    using f[THEN conjunct2, THEN conjunct2, THEN conjunct2, THEN conjunct1, rule_format, of "0x87000000"]
      f[THEN conjunct2, THEN conjunct2, THEN conjunct2, THEN conjunct1, rule_format, of "0x87000001"]
      f[THEN conjunct2, THEN conjunct2, THEN conjunct2, THEN conjunct1, rule_format, of "0x87000002"]
      f[THEN conjunct2, THEN conjunct2, THEN conjunct2, THEN conjunct1, rule_format, of "0x87000003"]
      f[THEN conjunct2, THEN conjunct2, THEN conjunct2, THEN conjunct1, rule_format, of "0x87000004"]
      f[THEN conjunct2, THEN conjunct2, THEN conjunct2, THEN conjunct1, rule_format, of "0x87000007"]
    unfolding h by (simp_all add: drop_bit_eq_div)
  have b3: "mem s2 0x87001000 = 0" "mem s2 0x86ffffff = 0"
    using f[THEN conjunct2, THEN conjunct2, THEN conjunct2, THEN conjunct2, rule_format, of "0x87001000"]
      f[THEN conjunct2, THEN conjunct2, THEN conjunct2, THEN conjunct2, rule_format, of "0x86ffffff"]
    by (simp_all add: PGSIZE_def k0_def)
  have m0: "mem k0 0x87000010 = 0" "mem k0 0x87000fff = 0" "mem k0 0x87001000 = 0"
    by (simp_all add: k0_def)
  have fl: "freelist s2 = 0x87000000 # freelist k0" using f by simp
  show ?thesis
    using a p s1(1) q1 q2 m0 s2(1) z fl b1 b2 b3 by simp
qed

lemma kalloc_times_all:
  "freelist_ok L s \<Longrightarrow>
     \<exists>s'. kalloc_times L (Suc (length (freelist s))) s = Inr (freelist s @ [0], s')"
proof (induction "freelist s" arbitrary: s)
  case Nil
  then show ?case using kalloc_nil[of s L] by simp
next
  case (Cons r rs)
  let ?s1 = "s\<lparr>freelist := rs, mem := memset (mem s) r 5 PGSIZE, ref := (ref s)(r div PGSIZE := 1)\<rparr>"
  have fl: "freelist s = r # rs" using Cons.hyps(2) by simp
  have ok: "r \<noteq> 0" "in_ref L (r div PGSIZE)"
    using Cons.prems fl by (auto simp: freelist_ok_def)
  have k: "kalloc L s = Inr (r, ?s1)" by (rule kalloc_cons[OF fl ok])
  have "freelist_ok L ?s1" using Cons.prems fl by (simp add: freelist_ok_def)
  moreover have "rs = freelist ?s1" by simp
  ultimately obtain s' where
    "kalloc_times L (Suc (length (freelist ?s1))) ?s1 = Inr (freelist ?s1 @ [0], s')"
    using Cons.hyps(1) by blast
  then show ?case using k fl by simp
qed

lemma kalloc_null_iff:
  assumes "freelist_ok L s"
  shows "(\<exists>s'. kalloc L s = Inr (0, s')) \<longleftrightarrow> freelist s = []"
proof (cases "freelist s")
  case Nil
  then show ?thesis by (simp add: kalloc_nil)
next
  case (Cons r rs)
  then have "r \<noteq> 0" "in_ref L (r div PGSIZE)"
    using assms by (auto simp: freelist_ok_def)
  then show ?thesis using kalloc_cons[OF Cons, of L] Cons by simp
qed

subsection \<open>kalloc\<close>

lemma kfree_freelist_ok:
  assumes ok: "freelist_ok L s" and k0: "kend L \<noteq> 0" and r: "kfree L pa s = Inr s'"
  shows "freelist_ok L s'"
proof -
  have chk: "pa mod PGSIZE = 0" "kend L \<le> pa" "pa < PHYSTOP L" "in_ref L (pa div PGSIZE)"
    using r by (auto simp: kfree_def split: if_splits)
  have "pa \<noteq> 0" using chk(2) k0 by auto
  then have "set (freelist s') \<subseteq> insert pa (set (freelist s))"
    using r kfree_ok[OF chk, of s] by (auto split: if_splits)
  then have sub: "set (freelist s') \<subseteq> insert pa (set (freelist s))" .
  show ?thesis
    unfolding freelist_ok_def
  proof
    fix x assume "x \<in> set (freelist s')"
    then have "x = pa \<or> x \<in> set (freelist s)" using sub by auto
    then show "x \<noteq> 0 \<and> x mod PGSIZE = 0 \<and> kend L \<le> x \<and> x < PHYSTOP L \<and> in_ref L (x div PGSIZE)"
    proof
      assume "x = pa"
      then show ?thesis using chk \<open>pa \<noteq> 0\<close> by simp
    next
      assume "x \<in> set (freelist s)"
      then show ?thesis using ok by (simp add: freelist_ok_def)
    qed
  qed
qed

lemma kalloc_freelist_ok:
  assumes "freelist_ok L s" "kalloc L s = Inr (r, s')"
  shows "freelist_ok L s'"
  using assms
  by (cases "freelist s") (auto simp: kalloc_def Let_def freelist_ok_def freelist_head_def split: if_splits)

text \<open>
  C6. On a free list as \<open>kfree\<close> builds it, \<open>kalloc\<close> with an empty list returns the null
  pointer and changes nothing (a return value, no panic); with a list \<open>r # rs\<close> it returns
  the page \<open>r\<close>, which is not null, leaves \<open>rs\<close> as the free list, fills all 4096 bytes of the
  page with the byte 5 and sets its reference count to 1. It returns null if and only if the
  list is empty. So with \<open>N\<close> pages on the list, \<open>N + 1\<close> consecutive calls return the \<open>N\<close>
  pages, none of them null, and then null.
\<close>

theorem kalloc_spec:
  assumes "freelist_ok L s"
  shows "(freelist s = [] \<longrightarrow> kalloc L s = Inr (0, s)) \<and>
         (\<forall>r rs. freelist s = r # rs \<longrightarrow>
            r \<noteq> 0 \<and>
            kalloc L s = Inr (r, s\<lparr>freelist := rs, mem := memset (mem s) r 5 PGSIZE,
                                   ref := (ref s)(r div PGSIZE := 1)\<rparr>) \<and>
            (\<forall>a. a - r < PGSIZE \<longrightarrow> memset (mem s) r 5 PGSIZE a = 5)) \<and>
         ((\<exists>s'. kalloc L s = Inr (0, s')) \<longleftrightarrow> freelist s = []) \<and>
         (\<exists>s'. kalloc_times L (Suc (length (freelist s))) s = Inr (freelist s @ [0], s')) \<and>
         0 \<notin> set (freelist s)"
proof -
  have a: "freelist s = [] \<longrightarrow> kalloc L s = Inr (0, s)"
    by (simp add: kalloc_nil)
  have b: "\<forall>r rs. freelist s = r # rs \<longrightarrow>
            r \<noteq> 0 \<and>
            kalloc L s = Inr (r, s\<lparr>freelist := rs, mem := memset (mem s) r 5 PGSIZE,
                                   ref := (ref s)(r div PGSIZE := 1)\<rparr>) \<and>
            (\<forall>a. a - r < PGSIZE \<longrightarrow> memset (mem s) r 5 PGSIZE a = 5)"
  proof (intro allI impI)
    fix r rs assume fl: "freelist s = r # rs"
    then have ok: "r \<noteq> 0" "in_ref L (r div PGSIZE)"
      using assms by (auto simp: freelist_ok_def)
    show "r \<noteq> 0 \<and>
            kalloc L s = Inr (r, s\<lparr>freelist := rs, mem := memset (mem s) r 5 PGSIZE,
                                   ref := (ref s)(r div PGSIZE := 1)\<rparr>) \<and>
            (\<forall>a. a - r < PGSIZE \<longrightarrow> memset (mem s) r 5 PGSIZE a = 5)"
      using kalloc_cons[OF fl ok] ok by (simp add: memset_def)
  qed
  have c: "(\<exists>s'. kalloc L s = Inr (0, s')) \<longleftrightarrow> freelist s = []"
    by (rule kalloc_null_iff[OF assms])
  have d: "\<exists>s'. kalloc_times L (Suc (length (freelist s))) s = Inr (freelist s @ [0], s')"
    by (rule kalloc_times_all[OF assms])
  have e: "0 \<notin> set (freelist s)"
    using assms by (auto simp: freelist_ok_def)
  show ?thesis using a b c d e by blast
qed

theorem kalloc_spec_witness:
  "freelist_ok L0 k0 \<and>
   (\<exists>s'. kalloc L0 k0 = Inr (0x87fff000, s') \<and> freelist s' = [0x87ffe000] \<and> ref s' 0x87fff = 1 \<and>
       mem s' 0x87fff010 = 5) \<and>
   (\<exists>s'. kalloc_times L0 3 k0 = Inr ([0x87fff000, 0x87ffe000, 0], s')) \<and>
   kalloc L0 (k0\<lparr>freelist := []\<rparr>) = Inr (0, k0\<lparr>freelist := []\<rparr>)"
proof -
  have a: "freelist_ok L0 k0"
    by (simp add: freelist_ok_def L0_def k0_def PGSIZE_def in_ref_def)
  have b: "freelist_ok L0 (k0\<lparr>freelist := []\<rparr>)"
    by (simp add: freelist_ok_def)
  have c: "freelist k0 = [0x87fff000, 0x87ffe000]" by (simp add: k0_def)
  have k: "kalloc L0 k0 = Inr (0x87fff000, k0\<lparr>freelist := [0x87ffe000],
             mem := memset (mem k0) 0x87fff000 5 PGSIZE,
             ref := (ref k0)(0x87fff000 div PGSIZE := 1)\<rparr>)"
    using kalloc_spec[OF a] c by blast
  have t: "\<exists>s'. kalloc_times L0 (Suc (length (freelist k0))) k0 = Inr (freelist k0 @ [0], s')"
    using kalloc_spec[OF a] by blast
  have t3: "\<exists>s'. kalloc_times L0 3 k0 = Inr ([0x87fff000, 0x87ffe000, 0], s')"
    using t unfolding c by (simp add: numeral_3_eq_3)
  have e: "kalloc L0 (k0\<lparr>freelist := []\<rparr>) = Inr (0, k0\<lparr>freelist := []\<rparr>)"
    using kalloc_spec[OF b] by simp
  have m: "memset (mem k0) 0x87fff000 5 PGSIZE 0x87fff010 = 5"
    by (simp add: memset_def PGSIZE_def)
  have r: "(0x87fff000::u64) div PGSIZE = 0x87fff"
    by (simp add: PGSIZE_def)
  show ?thesis
    using a t3 e by (simp add: k m r)
qed

subsection \<open>cowalloc\<close>

lemma outside_page_write64:
  assumes "\<not> a - m < PGSIZE"
  shows "write64 mm m v a = mm a"
proof -
  have "(8::u64) < PGSIZE" by (simp add: PGSIZE_def)
  then have "\<not> a - m < 8"
    using assms by (auto dest: order_less_trans)
  then show ?thesis by (simp add: write64_def)
qed

lemma copy_content:
  assumes "m mod PGSIZE = 0" "pa mod PGSIZE = 0" "m \<noteq> pa" "k < PGSIZE"
  shows "memmove (memset mm m c PGSIZE) m pa PGSIZE (m + k) = mm (pa + k)"
  using assms page_disjoint[OF assms] by (simp add: memmove_def memset_def)

lemma resolvable:
  assumes w: "walk pt va = Some e" and c: "cowpage L pt va = 0"
  shows "walk pt (PGROUNDDOWN va) = Some e" "PTE_V \<in> flags e" "PGROUNDDOWN va < MAXVA L"
proof -
  show "walk pt (PGROUNDDOWN va) = Some e" using w by (simp add: walk_PGROUNDDOWN)
  show "PTE_V \<in> flags e" using cowpage_0[OF c w] by simp
  have "va < MAXVA L" using cowpage_0[OF c w] by simp
  then show "PGROUNDDOWN va < MAXVA L"
    using PGROUNDDOWN_le[of va] by (rule order_le_less_trans[rotated])
qed

text \<open>
  C5. \<open>cowalloc\<close> on a resolvable copy-on-write page: the entry exists, \<open>cowpage\<close> accepts it
  (valid and marked copy-on-write), it is a user page, and the page it maps lies in the managed
  range and is not on the free list. If the page's reference count is exactly 1, nothing is
  allocated (the allocator state is unchanged), the entry gets the writable flag and loses the
  copy-on-write flag in place, and the same physical address is returned. If the count is not 1
  and the free list is empty, the null pointer is returned and nothing changes. If the count is
  2 or more and the free list is \<open>m # rest\<close>, then (when the page table takes the new mapping)
  the page \<open>m\<close> is returned, it holds a copy of all 4096 bytes of the old page, no byte outside
  \<open>m\<close> changes, the faulting address maps to \<open>m\<close> with the writable flag set and the
  copy-on-write flag cleared, and the old page's count is one less.
\<close>

theorem cowalloc_spec:
  assumes w: "walk pt va = Some e" and c: "cowpage L pt va = 0"
    and u: "PTE_U \<in> flags e" and nz: "PTE2PA e \<noteq> 0"
    and rg: "kend L \<le> PTE2PA e" "PTE2PA e < PHYSTOP L"
    and al: "PHYSTOP L mod PGSIZE = 0"
    and ok: "freelist_ok L s" and nf: "PTE2PA e \<notin> set (freelist s)"
  shows
   "(ref s (PTE2PA e div PGSIZE) = 1 \<longrightarrow>
       cowalloc L b pt va s =
         Inr (PTE2PA e, pt(vpn va \<mapsto> e\<lparr>flags := insert PTE_W (flags e) - {PTE_F}\<rparr>), s)) \<and>
    (ref s (PTE2PA e div PGSIZE) \<noteq> 1 \<and> freelist s = [] \<longrightarrow>
       cowalloc L b pt va s = Inr (0, pt, s)) \<and>
    (\<forall>m rest. 2 \<le> unat (ref s (PTE2PA e div PGSIZE)) \<and> freelist s = m # rest \<longrightarrow>
       (\<exists>s'. cowalloc L True pt va s =
               Inr (m, pt(vpn va \<mapsto> \<lparr>ppn = PA2PTE m, flags = insert PTE_W (flags e) - {PTE_F}\<rparr>), s') \<and>
             m \<noteq> 0 \<and>
             PTE2PA \<lparr>ppn = PA2PTE m, flags = insert PTE_W (flags e) - {PTE_F}\<rparr> = m \<and>
             freelist s' = rest \<and>
             (\<forall>k. k < PGSIZE \<longrightarrow> mem s' (m + k) = mem s (PTE2PA e + k)) \<and>
             (\<forall>a. \<not> a - m < PGSIZE \<longrightarrow> mem s' a = mem s a) \<and>
             ref s' = (ref s)(m div PGSIZE := 1,
                              PTE2PA e div PGSIZE := ref s (PTE2PA e div PGSIZE) - 1) \<and>
             unat (ref s' (PTE2PA e div PGSIZE)) = unat (ref s (PTE2PA e div PGSIZE)) - 1))"
proof -
  let ?pa = "PTE2PA e"
  let ?i = "?pa div PGSIZE"
  note r = resolvable[OF w c]
  have ir: "in_ref L ?i" by (rule in_ref_aligned[OF al rg(2)])
  have A: "cowalloc L b pt va s =
         Inr (?pa, pt(vpn va \<mapsto> e\<lparr>flags := insert PTE_W (flags e) - {PTE_F}\<rparr>), s)"
    if "ref s ?i = 1"
    using cowalloc_sole[OF r(1,2) u r(3) nz ir that, of b] by (simp add: vpn_PGROUNDDOWN)
  have B: "cowalloc L b pt va s = Inr (0, pt, s)"
    if "ref s ?i \<noteq> 1 \<and> freelist s = []"
    using cowalloc_nomem[OF r(1,2) u r(3) nz ir, of s b] that by simp
  have C: "\<exists>s'. cowalloc L True pt va s =
               Inr (m, pt(vpn va \<mapsto> \<lparr>ppn = PA2PTE m, flags = insert PTE_W (flags e) - {PTE_F}\<rparr>), s') \<and>
             m \<noteq> 0 \<and>
             PTE2PA \<lparr>ppn = PA2PTE m, flags = insert PTE_W (flags e) - {PTE_F}\<rparr> = m \<and>
             freelist s' = rest \<and>
             (\<forall>k. k < PGSIZE \<longrightarrow> mem s' (m + k) = mem s (?pa + k)) \<and>
             (\<forall>a. \<not> a - m < PGSIZE \<longrightarrow> mem s' a = mem s a) \<and>
             ref s' = (ref s)(m div PGSIZE := 1, ?i := ref s ?i - 1) \<and>
             unat (ref s' ?i) = unat (ref s ?i) - 1"
    if h: "2 \<le> unat (ref s ?i) \<and> freelist s = m # rest" for m rest
  proof -
    have fl: "freelist s = m # rest" using h by simp
    have m: "m \<noteq> 0" "m mod PGSIZE = 0" "in_ref L (m div PGSIZE)"
      using ok fl by (auto simp: freelist_ok_def)
    have ne: "m \<noteq> ?pa" using nf fl by auto
    have ni: "m div PGSIZE \<noteq> ?i"
      using aligned_div_inj[OF m(2) PTE2PA_aligned[of e]] ne by blast
    have d: "unat (ref s ?i - 1) = unat (ref s ?i) - 1" "ref s ?i \<noteq> 1"
      using word_dec_unat[of "ref s ?i"] h by simp_all
    let ?s' = "s\<lparr>freelist := rest,
            mem := memmove (memset (mem s) m 5 PGSIZE) m ?pa PGSIZE,
            ref := (ref s)(m div PGSIZE := 1, ?i := ref s ?i - 1)\<rparr>"
    have 1: "cowalloc L True pt va s =
       Inr (m, pt(vpn va \<mapsto> \<lparr>ppn = PA2PTE m, flags = insert PTE_W (flags e) - {PTE_F}\<rparr>), ?s')"
      using cowalloc_copy[OF r(1,2) u r(3) nz ir rg d(2) fl m(1,3) ni]
      by (simp add: vpn_PGROUNDDOWN)
    have 2: "PTE2PA \<lparr>ppn = PA2PTE m, flags = insert PTE_W (flags e) - {PTE_F}\<rparr> = m"
      using aligned_push_bit[OF m(2)] by (simp add: PTE2PA_def PA2PTE_def)
    have 3: "\<forall>k. k < PGSIZE \<longrightarrow> mem ?s' (m + k) = mem s (?pa + k)"
      using copy_content[OF m(2) PTE2PA_aligned[of e] ne] by simp
    have 4: "\<forall>a. \<not> a - m < PGSIZE \<longrightarrow> mem ?s' a = mem s a"
      by (simp add: memmove_def memset_def)
    have 5: "unat (ref ?s' ?i) = unat (ref s ?i) - 1" using d by simp
    show ?thesis
      using 1 2 3 4 5 m(1) by (intro exI[of _ ?s']) simp
  qed
  show ?thesis using A B C by blast
qed


lemma machine0:
  "walk pt0 0x1234 = Some e0" "cowpage L0 pt0 0x1234 = 0" "PTE_U \<in> flags e0"
  "PTE2PA e0 = 0x87000000" "PHYSTOP L0 mod PGSIZE = 0" "vpn 0x1234 = 1"
  "kend L0 = 0x80020000" "PHYSTOP L0 = 0x88000000"
  by (simp_all add: walk_def vpn_def pt0_def e0_def cowpage_def L0_def PTE2PA_def PGSIZE_def)

lemma k0_ok: "freelist_ok L0 (k0\<lparr>ref := r\<rparr>)" "freelist_ok L0 (k0\<lparr>freelist := []\<rparr>)"
  by (simp_all add: freelist_ok_def L0_def k0_def PGSIZE_def in_ref_def)

theorem cowalloc_spec_witness:
  "walk pt0 0x1234 = Some e0 \<and> cowpage L0 pt0 0x1234 = 0 \<and>
   cowalloc L0 True pt0 0x1234 (k0\<lparr>ref := (\<lambda>_. 1)\<rparr>) =
     Inr (0x87000000, pt0(1 \<mapsto> e0\<lparr>flags := {PTE_V, PTE_R, PTE_U, PTE_W}\<rparr>), k0\<lparr>ref := (\<lambda>_. 1)\<rparr>) \<and>
   cowalloc L0 True pt0 0x1234 (k0\<lparr>freelist := []\<rparr>) = Inr (0, pt0, k0\<lparr>freelist := []\<rparr>) \<and>
   (\<exists>s'. cowalloc L0 True pt0 0x1234 k0 =
       Inr (0x87fff000, pt0(1 \<mapsto> \<lparr>ppn = 0x87fff, flags = {PTE_V, PTE_R, PTE_U, PTE_W}\<rparr>), s') \<and>
     ref s' 0x87000 = 1 \<and> ref s' 0x87fff = 1 \<and> freelist s' = [0x87ffe000] \<and>
     mem s' 0x87fff010 = mem k0 0x87000010)"
proof -
  note m = machine0
  have f: "insert PTE_W (flags e0) - {PTE_F} = {PTE_V, PTE_R, PTE_U, PTE_W}"
    by (auto simp: e0_def)
  have g: "(0x87000000::u64) div PGSIZE = 0x87000" "(0x87fff000::u64) div PGSIZE = 0x87fff"
    "PA2PTE 0x87fff000 = 0x87fff" "(0x10::u64) < PGSIZE"
    by (simp_all add: PGSIZE_def PA2PTE_def)
  have h: "PTE2PA e0 \<noteq> 0" "kend L0 \<le> PTE2PA e0" "PTE2PA e0 < PHYSTOP L0"
    by (simp_all add: m)
  have n: "PTE2PA e0 \<notin> set (freelist (k0\<lparr>ref := r\<rparr>))" "PTE2PA e0 \<notin> set (freelist (k0\<lparr>freelist := []\<rparr>))" for r
    by (simp_all add: m k0_def)
  have A: "cowalloc L0 True pt0 0x1234 (k0\<lparr>ref := (\<lambda>_. 1)\<rparr>) =
     Inr (0x87000000, pt0(1 \<mapsto> e0\<lparr>flags := {PTE_V, PTE_R, PTE_U, PTE_W}\<rparr>), k0\<lparr>ref := (\<lambda>_. 1)\<rparr>)"
    using cowalloc_spec[OF m(1,2,3) h m(5) k0_ok(1) n(1), of "\<lambda>_. 1" True]
    by (simp add: m f)
  have B: "cowalloc L0 True pt0 0x1234 (k0\<lparr>freelist := []\<rparr>) = Inr (0, pt0, k0\<lparr>freelist := []\<rparr>)"
    using cowalloc_spec[OF m(1,2,3) h m(5) k0_ok(2) n(2), of True]
    by (simp add: m g k0_def)
  have k: "k0\<lparr>ref := ref k0\<rparr> = k0" by simp
  have "2 \<le> unat (ref k0 (PTE2PA e0 div PGSIZE)) \<and> freelist k0 = 0x87fff000 # [0x87ffe000]"
    by (simp add: m g k0_def)
  then obtain s' where
    C: "cowalloc L0 True pt0 0x1234 k0 =
       Inr (0x87fff000, pt0(vpn 0x1234 \<mapsto> \<lparr>ppn = PA2PTE 0x87fff000, flags = insert PTE_W (flags e0) - {PTE_F}\<rparr>), s')"
      "freelist s' = [0x87ffe000]"
      "\<forall>k. k < PGSIZE \<longrightarrow> mem s' (0x87fff000 + k) = mem k0 (PTE2PA e0 + k)"
      "ref s' = (ref k0)(0x87fff000 div PGSIZE := 1,
                      PTE2PA e0 div PGSIZE := ref k0 (PTE2PA e0 div PGSIZE) - 1)"
    using cowalloc_spec[OF m(1,2,3) h m(5) k0_ok(1)[of "ref k0"] n(1)[of "ref k0"], of True]
    unfolding k by blast
  have D: "mem s' 0x87fff010 = mem k0 0x87000010"
    using C(3) g(4) by (auto simp: m dest: spec[of _ "0x10"])
  have E: "ref s' 0x87000 = 1" "ref s' 0x87fff = 1"
    by (simp_all add: C(4) m g k0_def)
  show ?thesis
    using A B C(1,2) D E by (simp add: m f g)
qed


text \<open>
  C10. In the copy path of \<open>cowalloc\<close> (the count is not 1, a page \<open>m\<close> was allocated and
  filled), a failure of \<open>mappages\<close> makes the call return the null pointer with the page
  table exactly as before the call (the valid bit cleared for the call is set again), the free
  list exactly as before (\<open>m\<close> is chained in front again, its count back to 0), the old page's
  count not decremented, and no byte outside the page \<open>m\<close> changed, so the shared page has its
  contents.
\<close>

theorem cowalloc_mapfail_spec:
  assumes w: "walk pt va = Some e" and c: "cowpage L pt va = 0"
    and u: "PTE_U \<in> flags e" and nz: "PTE2PA e \<noteq> 0"
    and rg: "kend L \<le> PTE2PA e" "PTE2PA e < PHYSTOP L"
    and al: "PHYSTOP L mod PGSIZE = 0"
    and ok: "freelist_ok L s" and nf: "PTE2PA e \<notin> set (freelist s)"
    and r1: "ref s (PTE2PA e div PGSIZE) \<noteq> 1"
    and fl: "freelist s = m # rest"
  shows
   "\<exists>s'. cowalloc L False pt va s = Inr (0, pt, s') \<and>
         freelist s' = freelist s \<and>
         ref s' = (ref s)(m div PGSIZE := 0) \<and>
         ref s' (PTE2PA e div PGSIZE) = ref s (PTE2PA e div PGSIZE) \<and>
         (\<forall>a. \<not> a - m < PGSIZE \<longrightarrow> mem s' a = mem s a) \<and>
         (\<forall>k. k < PGSIZE \<longrightarrow> mem s' (PTE2PA e + k) = mem s (PTE2PA e + k))"
proof -
  let ?pa = "PTE2PA e"
  let ?i = "?pa div PGSIZE"
  note r = resolvable[OF w c]
  have ir: "in_ref L ?i" by (rule in_ref_aligned[OF al rg(2)])
  have m: "m \<noteq> 0" "m mod PGSIZE = 0" "in_ref L (m div PGSIZE)" "kend L \<le> m" "m < PHYSTOP L"
    using ok fl by (auto simp: freelist_ok_def)
  have ne: "m \<noteq> ?pa" using nf fl by auto
  have ni: "m div PGSIZE \<noteq> ?i"
    using aligned_div_inj[OF m(2) PTE2PA_aligned[of e]] ne by blast
  let ?s' = "s\<lparr>ref := (ref s)(m div PGSIZE := 0),
            mem := write64 (memset (memmove (memset (mem s) m 5 PGSIZE) m ?pa PGSIZE) m 1 PGSIZE)
                     m (freelist_head (s\<lparr>freelist := rest\<rparr>))\<rparr>"
  have 1: "cowalloc L False pt va s = Inr (0, pt, ?s')"
    using cowalloc_mapfail[OF r(1,2) u r(3) nz ir r1 fl m(1,3,2,4,5)] .
  have 2: "\<forall>a. \<not> a - m < PGSIZE \<longrightarrow> mem ?s' a = mem s a"
    by (simp add: outside_page_write64 memset_def memmove_def)
  have 3: "\<forall>k. k < PGSIZE \<longrightarrow> mem ?s' (?pa + k) = mem s (?pa + k)"
    using 2 page_disjoint[OF m(2) PTE2PA_aligned[of e] ne] by blast
  have 4: "ref ?s' ?i = ref s ?i" using ni by simp
  show ?thesis
    using 1 2 3 4 by (intro exI[of _ ?s']) simp
qed

theorem cowalloc_mapfail_spec_witness:
  "walk pt0 0x1234 = Some e0 \<and> cowpage L0 pt0 0x1234 = 0 \<and>
   (\<exists>s'. cowalloc L0 False pt0 0x1234 k0 = Inr (0, pt0, s') \<and>
         freelist s' = [0x87fff000, 0x87ffe000] \<and> ref s' 0x87000 = 2 \<and> ref s' 0x87fff = 0 \<and>
         mem s' 0x87000010 = mem k0 0x87000010)"
proof -
  note m = machine0
  have g: "(0x87000000::u64) div PGSIZE = 0x87000" "(0x87fff000::u64) div PGSIZE = 0x87fff"
    "(0x10::u64) < PGSIZE"
    by (simp_all add: PGSIZE_def)
  have h: "PTE2PA e0 \<noteq> 0" "kend L0 \<le> PTE2PA e0" "PTE2PA e0 < PHYSTOP L0"
    by (simp_all add: m)
  have k: "k0\<lparr>ref := ref k0\<rparr> = k0" by simp
  have ok: "freelist_ok L0 k0" using k0_ok(1)[of "ref k0"] by (simp only: k)
  have n: "PTE2PA e0 \<notin> set (freelist k0)" by (simp add: m k0_def)
  have r: "ref k0 (PTE2PA e0 div PGSIZE) \<noteq> 1" by (simp add: m g k0_def)
  have fl: "freelist k0 = 0x87fff000 # [0x87ffe000]" by (simp add: k0_def)
  obtain s' where
    C: "cowalloc L0 False pt0 0x1234 k0 = Inr (0, pt0, s')"
      "freelist s' = freelist k0"
      "ref s' = (ref k0)(0x87fff000 div PGSIZE := 0)"
      "\<forall>k. k < PGSIZE \<longrightarrow> mem s' (PTE2PA e0 + k) = mem k0 (PTE2PA e0 + k)"
    using cowalloc_mapfail_spec[OF m(1,2,3) h m(5) ok n r fl] by blast
  have D: "mem s' 0x87000010 = mem k0 0x87000010"
    using C(4) g(3) by (auto simp: m dest: spec[of _ "0x10"])
  have E: "ref s' 0x87000 = 2" "ref s' 0x87fff = 0"
    by (simp_all add: C(3) g k0_def)
  show ?thesis
    using C(1,2) D E by (simp add: m fl)
qed

section \<open>Properties of the buffer cache\<close>

subsection \<open>Locks and the replacement scan\<close>

lemma buf_acquire [simp]: "buf (acquire l s) = buf s" "head (acquire l s) = head s"
  "disk (acquire l s) = disk s" "iolog (acquire l s) = iolog s"
  "locklog (acquire l s) = locklog s @ [Acquire l]"
  by (simp_all add: acquire_def)

lemma buf_release [simp]: "buf (release l s) = buf s" "head (release l s) = head s"
  "disk (release l s) = disk s" "iolog (release l s) = iolog s"
  "locklog (release l s) = locklog s @ [Release l]"
  by (simp_all add: release_def)

lemma lookup_acquire [simp]: "lookup (acquire l s) = lookup s" "lookup (release l s) = lookup s"
  by (simp_all add: lookup_def fun_eq_iff)

lemma scan_free_append:
  "scan_free bs (xs @ ys) acc = scan_free bs ys (scan_free bs xs acc)"
proof (induction xs arbitrary: acc)
  case Nil
  then show ?case by simp
next
  case (Cons a xs)
  then show ?case by (cases acc) simp
qed

lemma lru_first_snoc_new:
  assumes "refcnt (bs x) = 0"
    and "\<forall>b \<in> set xs. refcnt (bs b) = 0 \<longrightarrow> mticks (bs x) < mticks (bs b)"
  shows "lru_first bs (xs @ [x]) x"
proof -
  have "set (takeWhile (\<lambda>y. y \<noteq> x) (xs @ [x])) \<subseteq> set xs"
    by (cases "x \<in> set xs") (auto simp: takeWhile_append1 takeWhile_append2 dest: set_takeWhileD)
  then show ?thesis
    unfolding lru_first_def using assms by auto
qed

lemma lru_first_snoc_keep:
  assumes "lru_first bs xs p"
    and "refcnt (bs x) = 0 \<longrightarrow> mticks (bs p) \<le> mticks (bs x)"
  shows "lru_first bs (xs @ [x]) p"
proof -
  have "p \<in> set xs" using assms(1) by (simp add: lru_first_def)
  then have "takeWhile (\<lambda>y. y \<noteq> p) (xs @ [x]) = takeWhile (\<lambda>y. y \<noteq> p) xs"
    by (simp add: takeWhile_append1)
  then show ?thesis
    using assms unfolding lru_first_def by auto
qed

lemma scan_free_spec:
  "(scan_free bs xs (mt, None) = (mt, None) \<and> (\<forall>b \<in> set xs. refcnt (bs b) \<noteq> 0)) \<or>
   (\<exists>p. scan_free bs xs (mt, None) = (mticks (bs p), Some p) \<and> lru_first bs xs p)"
proof (induction xs rule: rev_induct)
  case Nil
  then show ?case by simp
next
  case (snoc x xs)
  from snoc.IH show ?case
  proof
    assume h: "scan_free bs xs (mt, None) = (mt, None) \<and> (\<forall>b\<in>set xs. refcnt (bs b) \<noteq> 0)"
    show ?thesis
    proof (cases "refcnt (bs x) = 0")
      case True
      have "lru_first bs (xs @ [x]) x"
        using lru_first_snoc_new[of bs x xs] True h by simp
      moreover have "scan_free bs (xs @ [x]) (mt, None) = (mticks (bs x), Some x)"
        using h True by (simp add: scan_free_append)
      ultimately show ?thesis by blast
    next
      case False
      then have "scan_free bs (xs @ [x]) (mt, None) = (mt, None)"
        using h by (simp add: scan_free_append)
      then show ?thesis using h False by simp
    qed
  next
    assume "\<exists>p. scan_free bs xs (mt, None) = (mticks (bs p), Some p) \<and> lru_first bs xs p"
    then obtain p where p: "scan_free bs xs (mt, None) = (mticks (bs p), Some p)" "lru_first bs xs p"
      by blast
    show ?thesis
    proof (cases "refcnt (bs x) = 0 \<and> mticks (bs x) < mticks (bs p)")
      case True
      have "\<forall>b \<in> set xs. refcnt (bs b) = 0 \<longrightarrow> mticks (bs x) < mticks (bs b)"
      proof (intro ballI impI)
        fix b assume "b \<in> set xs" "refcnt (bs b) = 0"
        then have "mticks (bs p) \<le> mticks (bs b)" using p(2) by (simp add: lru_first_def)
        then show "mticks (bs x) < mticks (bs b)" using True by (auto elim: order_less_le_trans)
      qed
      then have "lru_first bs (xs @ [x]) x"
        using lru_first_snoc_new[of bs x xs] True by simp
      moreover have "scan_free bs (xs @ [x]) (mt, None) = (mticks (bs x), Some x)"
        using p(1) True by (simp add: scan_free_append)
      ultimately show ?thesis by blast
    next
      case False
      then have "refcnt (bs x) = 0 \<longrightarrow> mticks (bs p) \<le> mticks (bs x)" by auto
      then have "lru_first bs (xs @ [x]) p"
        using lru_first_snoc_keep[OF p(2)] by simp
      moreover have "scan_free bs (xs @ [x]) (mt, None) = (mticks (bs p), Some p)"
        using p(1) False by (auto simp add: scan_free_append)
      ultimately show ?thesis by blast
    qed
  qed
qed

lemma before_or_after:
  assumes "p \<in> set xs" "q \<in> set xs" "p \<noteq> q"
  shows "p \<in> set (takeWhile (\<lambda>x. x \<noteq> q) xs) \<or> q \<in> set (takeWhile (\<lambda>x. x \<noteq> p) xs)"
  using assms by (induction xs) auto

lemma lru_first_unique:
  assumes "lru_first bs xs p" "lru_first bs xs q"
  shows "p = q"
proof (rule ccontr)
  assume ne: "p \<noteq> q"
  have in_xs: "p \<in> set xs" "q \<in> set xs" using assms by (simp_all add: lru_first_def)
  have le: "mticks (bs p) \<le> mticks (bs q)" "mticks (bs q) \<le> mticks (bs p)"
    using assms by (simp_all add: lru_first_def)
  from before_or_after[OF in_xs ne] show False
  proof
    assume "p \<in> set (takeWhile (\<lambda>x. x \<noteq> q) xs)"
    then have "mticks (bs q) < mticks (bs p)"
      using assms by (simp add: lru_first_def)
    then show False using le(1) by simp
  next
    assume "q \<in> set (takeWhile (\<lambda>x. x \<noteq> p) xs)"
    then have "mticks (bs p) < mticks (bs q)"
      using assms by (simp add: lru_first_def)
    then show False using le(2) by simp
  qed
qed

lemma scan_free_lru:
  assumes "lru_first bs xs p"
  shows "scan_free bs xs (mt, None) = (mticks (bs p), Some p)"
proof -
  have "\<not> (\<forall>b \<in> set xs. refcnt (bs b) \<noteq> 0)"
    using assms by (auto simp: lru_first_def)
  then obtain q where q: "scan_free bs xs (mt, None) = (mticks (bs q), Some q)" "lru_first bs xs q"
    using scan_free_spec[of bs xs mt] by blast
  then show ?thesis using lru_first_unique[OF assms q(2)] by simp
qed

lemma scan_free_none:
  assumes "\<forall>b \<in> set xs. refcnt (bs b) \<noteq> 0"
  shows "scan_free bs xs (mt, None) = (mt, None)"
  using scan_free_spec[of bs xs mt] assms by (auto simp: lru_first_def)

lemma lru_first_exists:
  assumes "\<exists>b \<in> set xs. refcnt (bs b) = 0"
  shows "\<exists>p. lru_first bs xs p"
  using scan_free_spec[of bs xs 0] assms by auto

subsection \<open>The paths of bget\<close>

lemma HASH_range: "0 \<le> x \<Longrightarrow> 0 \<le> HASH x \<and> HASH x < NBUCKET"
  by (simp add: HASH_def NBUCKET_def)

lemma HASH_less: "HASH x < NBUCKET"
  by (simp add: HASH_def NBUCKET_def) (smt (verit) pos_mod_sign)

lemma HASH_succ: "0 \<le> i \<Longrightarrow> HASH (i mod 13 + 1) = (i + 1) mod 13"
  by (simp add: HASH_def NBUCKET_def mod_add_left_eq)

lemma cyc_range: "0 \<le> (i::int) mod 13 \<and> i mod 13 < NBUCKET"
  by (simp add: NBUCKET_def)

lemma cyc_ne:
  assumes "0 \<le> bid" "bid < 13" "1 \<le> a" "a \<le> 12"
  shows "(bid + a) mod 13 \<noteq> (bid::int)"
proof
  assume "(bid + a) mod 13 = bid"
  moreover have "bid mod 13 = bid" using assms by simp
  ultimately have "(bid + a) mod 13 = bid mod 13" by simp
  then have "13 dvd (bid + a - bid)" by (simp only: mod_eq_dvd_iff)
  then have "13 dvd a" by simp
  then have "13 \<le> a" using assms(3) by (intro zdvd_imp_le) simp_all
  then show False using assms(4) by simp
qed

lemma bget_spin_hit:
  assumes "0 \<le> HASH (sint bn)" "lookup s (HASH (sint bn)) d bn = Some b"
  shows "bget_spin d bn s =
     Inr (b, hit b [Acquire (Bucket (HASH (sint bn))), Release (Bucket (HASH (sint bn)))] s)"
  using assms HASH_less[of "sint bn"]
  by (simp add: bget_spin_def Let_def incref_def acquire_def release_def lookup_def hit_def)

lemma bget_spin_miss:
  assumes "0 \<le> HASH (sint bn)" "lookup s (HASH (sint bn)) d bn = None"
  shows "bget_spin d bn s =
     bget_evict d bn (HASH (sint bn))
       (s\<lparr>locklog := locklog s @ [Acquire (Bucket (HASH (sint bn))), Release (Bucket (HASH (sint bn)))]\<rparr>)"
  using assms HASH_less[of "sint bn"]
  by (simp add: bget_spin_def Let_def acquire_def release_def lookup_def)

lemma bget_evict_hit:
  assumes "lookup s bid d bn = Some b"
  shows "bget_evict d bn bid s =
     Inr (b, hit b [Acquire Block, Acquire (Bucket bid), Release (Bucket bid), Release Block] s)"
  using assms
  by (simp add: bget_evict_def Let_def incref_def acquire_def release_def lookup_def hit_def)

lemma bget_evict_inplace:
  assumes "lookup s bid d bn = None" "lru_first (buf s) (head s bid) p"
  shows "bget_evict d bn bid s =
     Inr (p, taken d bn p [Acquire Block, Acquire (Bucket bid), Release (Bucket bid), Release Block] s)"
proof -
  have "refcnt (buf s p) = 0" using assms(2) by (simp add: lru_first_def)
  then show ?thesis
    using assms(1) scan_free_lru[OF assms(2), of 0]
    by (simp add: bget_evict_def Let_def recycle_def acquire_def release_def lookup_def taken_def)
qed

lemma bget_evict_steal:
  assumes "lookup s bid d bn = None" "\<forall>b \<in> set (head s bid). refcnt (buf s b) \<noteq> 0"
  shows "bget_evict d bn bid s =
     steal d bn bid (HASH (bid + 1)) 0 (s\<lparr>locklog := locklog s @ [Acquire Block, Acquire (Bucket bid)]\<rparr>)"
  using assms(1) scan_free_none[OF assms(2), of 0]
  by (simp add: bget_evict_def Let_def acquire_def lookup_def)

lemma scan_events_Suc:
  "scan_events bid a (Suc m) =
     [Acquire (Bucket ((bid + a) mod 13)), Release (Bucket ((bid + a) mod 13))] @
     scan_events bid (a + 1) m"
proof -
  have "[0..<Suc m] = 0 # map Suc [0..<m]"
    by (simp add: upt_conv_Cons map_Suc_upt del: upt_Suc)
  then show ?thesis
    by (simp add: scan_events_def comp_def algebra_simps)
qed

lemma moved_log:
  "moved d bn bid j p evs (s\<lparr>locklog := locklog s @ l\<rparr>) = moved d bn bid j p (l @ evs) s"
  by (simp add: moved_def)

lemma steal_skip:
  assumes "0 \<le> bid" "bid < 13" "1 \<le> a" "a \<le> 12"
    and "\<forall>b \<in> set (head s ((bid + a) mod 13)). refcnt (buf s b) \<noteq> 0"
  shows "steal d bn bid ((bid + a) mod 13) mt s =
         steal d bn bid ((bid + (a + 1)) mod 13) mt
           (s\<lparr>locklog := locklog s @ [Acquire (Bucket ((bid + a) mod 13)),
                                      Release (Bucket ((bid + a) mod 13))]\<rparr>)"
proof -
  let ?i = "(bid + a) mod 13"
  have ne: "?i \<noteq> bid" by (rule cyc_ne[OF assms(1-4)])
  have rg: "0 \<le> ?i" "?i < NBUCKET" "0 \<le> bid" "bid < NBUCKET"
    using assms(1,2) by (simp_all add: NBUCKET_def)
  have h: "HASH (?i + 1) = (bid + (a + 1)) mod 13"
    using HASH_succ[of "bid + a"] assms by (simp add: algebra_simps)
  show ?thesis
    apply (subst steal.simps)
    using ne rg scan_free_none[OF assms(5), of mt]
    by (simp add: Let_def h acquire_def release_def)
qed

lemma steal_take:
  assumes "0 \<le> bid" "bid < 13" "1 \<le> a" "a \<le> 12"
    and "lru_first (buf s) (head s ((bid + a) mod 13)) p"
  shows "steal d bn bid ((bid + a) mod 13) mt s =
     Inr (p, moved d bn bid ((bid + a) mod 13) p
               (move_events bid ((bid + a) mod 13) p @ [Release (Bucket bid), Release Block]) s)"
proof -
  let ?i = "(bid + a) mod 13"
  have ne: "?i \<noteq> bid" by (rule cyc_ne[OF assms(1-4)])
  have rg: "0 \<le> ?i" "?i < NBUCKET" "0 \<le> bid" "bid < NBUCKET"
    using assms(1,2) by (simp_all add: NBUCKET_def)
  have z: "refcnt (buf s p) = 0" using assms(5) by (simp add: lru_first_def)
  show ?thesis
    apply (subst steal.simps)
    using ne rg z scan_free_lru[OF assms(5), of mt]
    by (simp add: Let_def acquire_def release_def recycle_def unlink_def link_head_def moved_def
        move_events_def)
qed

lemma steal_found:
  assumes "0 \<le> bid" "bid < 13" "1 \<le> a" "a + int m \<le> 12"
    and "\<forall>k<m. \<forall>b \<in> set (head s ((bid + a + int k) mod 13)). refcnt (buf s b) \<noteq> 0"
    and "lru_first (buf s) (head s ((bid + a + int m) mod 13)) p"
  shows "steal d bn bid ((bid + a) mod 13) mt s =
     Inr (p, moved d bn bid ((bid + a + int m) mod 13) p
               (scan_events bid a m @ move_events bid ((bid + a + int m) mod 13) p @
                [Release (Bucket bid), Release Block]) s)"
  using assms(3-6)
proof (induction m arbitrary: a s)
  case 0
  have e: "scan_events bid a 0 = []"
    by (simp add: scan_events_def)
  show ?case
    using steal_take[OF assms(1,2), of a s p d bn mt] "0.prems"
    by (simp add: e)
next
  case (Suc m)
  let ?s1 = "s\<lparr>locklog := locklog s @ [Acquire (Bucket ((bid + a) mod 13)),
                                      Release (Bucket ((bid + a) mod 13))]\<rparr>"
  have a12: "a \<le> 12" using Suc.prems(2) by simp
  have sk: "\<forall>b \<in> set (head s ((bid + a) mod 13)). refcnt (buf s b) \<noteq> 0"
    using Suc.prems(3) by (auto dest: spec[of _ 0])
  have 1: "steal d bn bid ((bid + a) mod 13) mt s = steal d bn bid ((bid + (a + 1)) mod 13) mt ?s1"
    by (rule steal_skip[OF assms(1,2) Suc.prems(1) a12 sk])
  have p1: "1 \<le> a + 1" "a + 1 + int m \<le> 12" using Suc.prems(1,2) by simp_all
  have p3: "\<forall>k<m. \<forall>b \<in> set (head ?s1 ((bid + (a + 1) + int k) mod 13)). refcnt (buf ?s1 b) \<noteq> 0"
  proof (intro allI impI)
    fix k assume "k < m"
    then have "Suc k < Suc m" by simp
    then have "\<forall>b \<in> set (head s ((bid + a + int (Suc k)) mod 13)). refcnt (buf s b) \<noteq> 0"
      using Suc.prems(3) by blast
    then show "\<forall>b \<in> set (head ?s1 ((bid + (a + 1) + int k) mod 13)). refcnt (buf ?s1 b) \<noteq> 0"
      by (simp add: algebra_simps)
  qed
  have p4: "lru_first (buf ?s1) (head ?s1 ((bid + (a + 1) + int m) mod 13)) p"
    using Suc.prems(4) by (simp add: algebra_simps)
  have j: "(bid + (a + 1) + int m) mod 13 = (bid + a + int (Suc m)) mod 13"
    by (simp add: algebra_simps)
  show ?case
    unfolding 1 Suc.IH[OF p1 p3 p4] scan_events_Suc[of bid a m] moved_log j
    by simp
qed

lemma steal_panic:
  assumes "0 \<le> bid" "bid < 13" "1 \<le> a" "a + int m = 13"
    and "\<forall>k<m. \<forall>b \<in> set (head s ((bid + a + int k) mod 13)). refcnt (buf s b) \<noteq> 0"
  shows "steal d bn bid ((bid + a) mod 13) mt s =
     Inl (Panic ''bget: no buffers'',
          s\<lparr>locklog := locklog s @ scan_events bid a m @ [Release (Bucket bid), Release Block]\<rparr>)"
  using assms(3-5)
proof (induction m arbitrary: a s)
  case 0
  then have "(bid + a) mod 13 = bid" using assms(1,2) by simp
  then show ?case
    using assms(1,2)
    by (subst steal.simps) (simp add: NBUCKET_def release_def scan_events_def)
next
  case (Suc m)
  let ?s1 = "s\<lparr>locklog := locklog s @ [Acquire (Bucket ((bid + a) mod 13)),
                                      Release (Bucket ((bid + a) mod 13))]\<rparr>"
  have a12: "a \<le> 12" using Suc.prems(2) by simp
  have sk: "\<forall>b \<in> set (head s ((bid + a) mod 13)). refcnt (buf s b) \<noteq> 0"
    using Suc.prems(3) by (auto dest: spec[of _ 0])
  have 1: "steal d bn bid ((bid + a) mod 13) mt s = steal d bn bid ((bid + (a + 1)) mod 13) mt ?s1"
    by (rule steal_skip[OF assms(1,2) Suc.prems(1) a12 sk])
  have p1: "1 \<le> a + 1" "a + 1 + int m = 13" using Suc.prems(1,2) by simp_all
  have p3: "\<forall>k<m. \<forall>b \<in> set (head ?s1 ((bid + (a + 1) + int k) mod 13)). refcnt (buf ?s1 b) \<noteq> 0"
  proof (intro allI impI)
    fix k assume "k < m"
    then have "Suc k < Suc m" by simp
    then have "\<forall>b \<in> set (head s ((bid + a + int (Suc k)) mod 13)). refcnt (buf s b) \<noteq> 0"
      using Suc.prems(3) by blast
    then show "\<forall>b \<in> set (head ?s1 ((bid + (a + 1) + int k) mod 13)). refcnt (buf ?s1 b) \<noteq> 0"
      by (simp add: algebra_simps)
  qed
  show ?case
    unfolding 1 Suc.IH[OF p1 p3] scan_events_Suc[of bid a m]
    by simp
qed

lemma HASH_succ0: "0 \<le> bid \<Longrightarrow> HASH (bid + 1) = (bid + 1) mod 13"
  by (simp add: HASH_def NBUCKET_def)

lemma bget_evict_found:
  assumes "0 \<le> bid" "bid < 13" "lookup s bid d bn = None"
    and "\<forall>b \<in> set (head s bid). refcnt (buf s b) \<noteq> 0"
    and "m < 12"
    and "\<forall>k<m. \<forall>b \<in> set (head s ((bid + 1 + int k) mod 13)). refcnt (buf s b) \<noteq> 0"
    and "lru_first (buf s) (head s ((bid + 1 + int m) mod 13)) p"
  shows "bget_evict d bn bid s =
     Inr (p, moved d bn bid ((bid + 1 + int m) mod 13) p
               ([Acquire Block, Acquire (Bucket bid)] @ scan_events bid 1 m @
                move_events bid ((bid + 1 + int m) mod 13) p @
                [Release (Bucket bid), Release Block]) s)"
proof -
  let ?s1 = "s\<lparr>locklog := locklog s @ [Acquire Block, Acquire (Bucket bid)]\<rparr>"
  have a: "(1::int) \<le> 1" "1 + int m \<le> 12" using assms(5) by simp_all
  have sk: "\<forall>k<m. \<forall>b \<in> set (head ?s1 ((bid + 1 + int k) mod 13)). refcnt (buf ?s1 b) \<noteq> 0"
    using assms(6) by simp
  have lf: "lru_first (buf ?s1) (head ?s1 ((bid + 1 + int m) mod 13)) p"
    using assms(7) by simp
  show ?thesis
    unfolding bget_evict_steal[OF assms(3,4)] HASH_succ0[OF assms(1)]
      steal_found[OF assms(1,2) a sk lf] moved_log
    by simp
qed

lemma bget_evict_panic:
  assumes "0 \<le> bid" "bid < 13" "lookup s bid d bn = None"
    and "\<forall>b \<in> set (head s bid). refcnt (buf s b) \<noteq> 0"
    and "\<forall>k<12. \<forall>b \<in> set (head s ((bid + 1 + int k) mod 13)). refcnt (buf s b) \<noteq> 0"
  shows "bget_evict d bn bid s =
     Inl (Panic ''bget: no buffers'',
          s\<lparr>locklog := locklog s @ [Acquire Block, Acquire (Bucket bid)] @ scan_events bid 1 12 @
                        [Release (Bucket bid), Release Block]\<rparr>)"
proof -
  let ?s1 = "s\<lparr>locklog := locklog s @ [Acquire Block, Acquire (Bucket bid)]\<rparr>"
  have a: "(1::int) \<le> 1" "1 + int 12 = 13" by simp_all
  have sk: "\<forall>k<12. \<forall>b \<in> set (head ?s1 ((bid + 1 + int k) mod 13)). refcnt (buf ?s1 b) \<noteq> 0"
    using assms(5) by simp
  show ?thesis
    unfolding bget_evict_steal[OF assms(3,4)] HASH_succ0[OF assms(1)]
      steal_panic[OF assms(1,2) a sk]
    by simp
qed

text \<open>Every run of the eviction part is one of four.\<close>

lemma bget_evict_paths:
  assumes rg: "0 \<le> bid" "bid < 13"
  obtains
    (rescan) r where "lookup s bid d bn = Some r"
      "bget_evict d bn bid s =
         Inr (r, hit r [Acquire Block, Acquire (Bucket bid), Release (Bucket bid), Release Block] s)"
  | (inplace) r where "lookup s bid d bn = None" "lru_first (buf s) (head s bid) r"
      "bget_evict d bn bid s =
         Inr (r, taken d bn r
                   [Acquire Block, Acquire (Bucket bid), Release (Bucket bid), Release Block] s)"
  | (stolen) r m where "lookup s bid d bn = None"
      "\<forall>b \<in> set (head s bid). refcnt (buf s b) \<noteq> 0" "m < 12"
      "\<forall>k<m. \<forall>b \<in> set (head s ((bid + 1 + int k) mod 13)). refcnt (buf s b) \<noteq> 0"
      "lru_first (buf s) (head s ((bid + 1 + int m) mod 13)) r"
      "bget_evict d bn bid s =
         Inr (r, moved d bn bid ((bid + 1 + int m) mod 13) r
                   ([Acquire Block, Acquire (Bucket bid)] @ scan_events bid 1 m @
                    move_events bid ((bid + 1 + int m) mod 13) r @
                    [Release (Bucket bid), Release Block]) s)"
  | (nobuf) "lookup s bid d bn = None"
      "\<forall>b \<in> set (head s bid). refcnt (buf s b) \<noteq> 0"
      "\<forall>k<12. \<forall>b \<in> set (head s ((bid + 1 + int k) mod 13)). refcnt (buf s b) \<noteq> 0"
      "bget_evict d bn bid s =
         Inl (Panic ''bget: no buffers'',
              s\<lparr>locklog := locklog s @ [Acquire Block, Acquire (Bucket bid)] @
                   scan_events bid 1 12 @ [Release (Bucket bid), Release Block]\<rparr>)"
proof (cases "lookup s bid d bn")
  case (Some b)
  show ?thesis by (rule rescan[OF Some bget_evict_hit[OF Some]])
next
  case None
  show ?thesis
  proof (cases "\<exists>b \<in> set (head s bid). refcnt (buf s b) = 0")
    case True
    then obtain p where p: "lru_first (buf s) (head s bid) p"
      using lru_first_exists by blast
    show ?thesis by (rule inplace[OF None p bget_evict_inplace[OF None p]])
  next
    case False
    then have nf: "\<forall>b \<in> set (head s bid). refcnt (buf s b) \<noteq> 0" by simp
    define P where "P k \<longleftrightarrow> (\<exists>b \<in> set (head s ((bid + 1 + int k) mod 13)). refcnt (buf s b) = 0)" for k
    show ?thesis
    proof (cases "\<exists>k<12. P k")
      case True
      then obtain k0 where k0: "k0 < 12" "P k0" by blast
      define m where "m = (LEAST k. P k)"
      have Pm: "P m" unfolding m_def using k0(2) by (rule LeastI)
      have "m \<le> k0" unfolding m_def using k0(2) by (rule Least_le)
      then have m12: "m < 12" using k0(1) by simp
      have sk: "\<forall>k<m. \<forall>b \<in> set (head s ((bid + 1 + int k) mod 13)). refcnt (buf s b) \<noteq> 0"
      proof (intro allI impI)
        fix k assume "k < m"
        then have "\<not> P k" unfolding m_def by (rule not_less_Least)
        then show "\<forall>b \<in> set (head s ((bid + 1 + int k) mod 13)). refcnt (buf s b) \<noteq> 0"
          by (simp add: P_def)
      qed
      obtain p where p: "lru_first (buf s) (head s ((bid + 1 + int m) mod 13)) p"
        using Pm lru_first_exists unfolding P_def by blast
      show ?thesis
        by (rule stolen[OF None nf m12 sk p bget_evict_found[OF rg None nf m12 sk p]])
    next
      case False
      then have sk: "\<forall>k<12. \<forall>b \<in> set (head s ((bid + 1 + int k) mod 13)). refcnt (buf s b) \<noteq> 0"
        by (auto simp: P_def)
      show ?thesis
        by (rule nobuf[OF None nf sk bget_evict_panic[OF rg None nf sk]])
    qed
  qed
qed

text \<open>Every return of the eviction part is one of three.\<close>

lemma bget_evict_cases:
  assumes r: "bget_evict d bn bid s = Inr (r, s')" and rg: "0 \<le> bid" "bid < 13"
  obtains
    (rescan) evs where "lookup s bid d bn = Some r" "s' = hit r evs s"
      "evs = [Acquire Block, Acquire (Bucket bid), Release (Bucket bid), Release Block]"
  | (inplace) evs where "lookup s bid d bn = None" "lru_first (buf s) (head s bid) r"
      "s' = taken d bn r evs s"
      "evs = [Acquire Block, Acquire (Bucket bid), Release (Bucket bid), Release Block]"
  | (stolen) evs m where "lookup s bid d bn = None"
      "\<forall>b \<in> set (head s bid). refcnt (buf s b) \<noteq> 0" "m < 12"
      "\<forall>k<m. \<forall>b \<in> set (head s ((bid + 1 + int k) mod 13)). refcnt (buf s b) \<noteq> 0"
      "lru_first (buf s) (head s ((bid + 1 + int m) mod 13)) r"
      "s' = moved d bn bid ((bid + 1 + int m) mod 13) r evs s"
      "evs = [Acquire Block, Acquire (Bucket bid)] @ scan_events bid 1 m @
             move_events bid ((bid + 1 + int m) mod 13) r @
             [Release (Bucket bid), Release Block]"
proof (cases rule: bget_evict_paths[OF rg, of s d bn])
  case (1 b)
  then show ?thesis using r rescan by simp
next
  case (2 p)
  then show ?thesis using r inplace by simp
next
  case (3 p m)
  have e: "p = r" "s' = moved d bn bid ((bid + 1 + int m) mod 13) p
                   ([Acquire Block, Acquire (Bucket bid)] @ scan_events bid 1 m @
                    move_events bid ((bid + 1 + int m) mod 13) p @
                    [Release (Bucket bid), Release Block]) s"
    using r 3(6) by auto
  show ?thesis
    using stolen[OF 3(1,2,3,4) 3(5)[unfolded e(1)] e(2)[unfolded e(1)]] by simp
next
  case 4
  then show ?thesis using r by simp
qed

lemma bget_spin_cases:
  assumes r: "bget_spin d bn s = Inr (r, s')"
  obtains
    (first) evs where "0 \<le> HASH (sint bn)" "lookup s (HASH (sint bn)) d bn = Some r"
      "s' = hit r evs s"
  | (inplace) evs where "0 \<le> HASH (sint bn)" "lookup s (HASH (sint bn)) d bn = None"
      "lru_first (buf s) (head s (HASH (sint bn))) r" "s' = taken d bn r evs s"
  | (stolen) evs m where "0 \<le> HASH (sint bn)" "lookup s (HASH (sint bn)) d bn = None"
      "\<forall>b \<in> set (head s (HASH (sint bn))). refcnt (buf s b) \<noteq> 0" "m < 12"
      "\<forall>k<m. \<forall>b \<in> set (head s ((HASH (sint bn) + 1 + int k) mod 13)). refcnt (buf s b) \<noteq> 0"
      "lru_first (buf s) (head s ((HASH (sint bn) + 1 + int m) mod 13)) r"
      "s' = moved d bn (HASH (sint bn)) ((HASH (sint bn) + 1 + int m) mod 13) r evs s"
proof -
  let ?bid = "HASH (sint bn)"
  let ?l = "[Acquire (Bucket ?bid), Release (Bucket ?bid)]"
  let ?s1 = "s\<lparr>locklog := locklog s @ ?l\<rparr>"
  have rg: "0 \<le> ?bid" "?bid < 13"
    using r HASH_less[of "sint bn"] by (auto simp: bget_spin_def Let_def NBUCKET_def split: if_splits)
  show ?thesis
  proof (cases "lookup s ?bid d bn")
    case (Some b)
    then show ?thesis using r first rg by (auto simp add: bget_spin_hit)
  next
    case None
    have lk: "lookup ?s1 = lookup s" by (simp add: lookup_def fun_eq_iff)
    have e: "bget_evict d bn ?bid ?s1 = Inr (r, s')"
      using r bget_spin_miss[OF rg(1) None] by simp
    show ?thesis
    proof (cases rule: bget_evict_cases[OF e rg])
      case (1 evs)
      then show ?thesis using None by (simp add: lk)
    next
      case (2 evs)
      then show ?thesis using inplace[OF rg(1) None, of "?l @ evs"]
        by (simp add: lk taken_def)
    next
      case (3 evs m)
      then show ?thesis using stolen[OF rg(1) None _ _ _ _, of m "?l @ evs"]
        by (simp add: lk moved_def)
    qed
  qed
qed

subsection \<open>The concrete caches\<close>

lemma cache2_eq:
  "cache2 = \<lparr>buf = (\<lambda>_. zero_buf 4), head = (\<lambda>_. [])(0 := [1, 0]), locklog = [],
             disk = (\<lambda>_. [1, 2, 3, 4]), iolog = []\<rparr>"
  by (simp add: cache2_def binit_def boot_def upt_rec[of 0] upt_rec[of 1] upt_rec[of 2] numeral_2_eq_2)

lemma aged2_reached:
  "map_option (\<lambda>s. (map (buf s) [0, 1], map (head s) [0, 1, 2], disk s (1, 1)))
     (state_after aged2_run) =
   Some (map (buf aged2) [0, 1], map (head aged2) [0, 1, 2], disk aged2 (1, 1))"
  by code_simp

lemma pinned2_reached:
  "map_option (\<lambda>s. (map (buf s) [0, 1], map (head s) [0, 1, 2], disk s (1, 1)))
     (state_after pinned2_run) =
   Some (map (buf pinned2) [0, 1], map (head pinned2) [0, 1, 2], disk pinned2 (1, 1))"
  by code_simp

lemma aged7_reached:
  "map_option (\<lambda>s. (map (buf s) [0, 1, 2, 3, 4, 5, 6, 7], map (head s) [0, 1, 2, 3, 4],
                     disk s (1, 1)))
     (state_after aged7_run) =
   Some (map (buf aged7) [0, 1, 2, 3, 4, 5, 6, 7], map (head aged7) [0, 1, 2, 3, 4],
         disk aged7 (1, 1))"
  by code_simp

lemma result_simps:
  "result_buf (Inr (r, s)) = Some r" "result_buf (Inl x) = None"
  "field_after f b (Inr (r, s)) = Some (f (buf s b))"
  "result_error (Inl (e, s)) = Some e" "result_error (Inr y) = None"
  "end_state (Inr (r, s)) = s" "end_state (Inl (e, s)) = s"
  "log_after (Inr (r, s)) = locklog s" "log_after (Inl (e, s)) = locklog s"
  by (simp_all add: result_buf_def field_after_def result_error_def end_state_def log_after_def
      split: prod.splits)

lemma result_buf_Some: "result_buf x = Some r \<Longrightarrow> \<exists>s. x = Inr (r, s)"
  by (auto simp: result_buf_def split: sum.splits)

subsection \<open>Replacement inside the target bucket\<close>

text \<open>
  C3 (amended). When the block number maps to a bucket, the scan of that bucket misses and the
  bucket holds a buffer with count 0, \<open>bget\<close> takes, in place, the buffer of the target bucket
  with count 0 whose ticks are oldest, the first met in scan order among equals
  (\<open>lru_first\<close>): its key becomes \<open>(dev, blockno)\<close>, it is marked invalid and its count is 1;
  no other buffer and no list changes (\<open>taken\<close>). The buffer taken has the smallest ticks
  among the count-0 buffers of the target bucket, which need not be the smallest of the cache.
\<close>

theorem bget_inplace_lru:
  assumes "0 \<le> HASH (sint bn)"
    and "lookup s (HASH (sint bn)) d bn = None"
    and "\<exists>b \<in> set (head s (HASH (sint bn))). refcnt (buf s b) = 0"
  shows "(\<exists>p. lru_first (buf s) (head s (HASH (sint bn))) p) \<and>
         (\<forall>p. lru_first (buf s) (head s (HASH (sint bn))) p \<longrightarrow>
            bget_spin d bn s =
              Inr (p, taken d bn p
                        [Acquire (Bucket (HASH (sint bn))), Release (Bucket (HASH (sint bn))),
                         Acquire Block, Acquire (Bucket (HASH (sint bn))),
                         Release (Bucket (HASH (sint bn))), Release Block] s) \<and>
            p \<in> set (head s (HASH (sint bn))) \<and> refcnt (buf s p) = 0 \<and>
            (\<forall>b \<in> set (head s (HASH (sint bn))).
               refcnt (buf s b) = 0 \<longrightarrow> mticks (buf s p) \<le> mticks (buf s b)))"
proof -
  let ?bid = "HASH (sint bn)"
  let ?l = "[Acquire (Bucket ?bid), Release (Bucket ?bid)]"
  let ?s1 = "s\<lparr>locklog := locklog s @ ?l\<rparr>"
  have 1: "\<exists>p. lru_first (buf s) (head s ?bid) p"
    using assms(3) by (rule lru_first_exists)
  have 2: "bget_spin d bn s =
              Inr (p, taken d bn p
                        [Acquire (Bucket ?bid), Release (Bucket ?bid),
                         Acquire Block, Acquire (Bucket ?bid),
                         Release (Bucket ?bid), Release Block] s)"
    if p: "lru_first (buf s) (head s ?bid) p" for p
  proof -
    have lk: "lookup ?s1 ?bid d bn = None" using assms(2) by (simp add: lookup_def)
    have lf: "lru_first (buf ?s1) (head ?s1 ?bid) p" using p by simp
    show ?thesis
      unfolding bget_spin_miss[OF assms(1,2)] bget_evict_inplace[OF lk lf]
      by (simp add: taken_def)
  qed
  show ?thesis using 1 2 by (auto simp: lru_first_def)
qed

theorem bget_inplace_lru_witness:
  "0 \<le> HASH (sint (54::u32)) \<and> lookup aged7 (HASH (sint (54::u32))) 1 54 = None \<and>
   (\<exists>b \<in> set (head aged7 (HASH (sint (54::u32)))). refcnt (buf aged7 b) = 0) \<and>
   head aged7 (HASH (sint (54::u32))) = [1, 2, 3, 4] \<and>
   map (\<lambda>b. (refcnt (buf aged7 b), mticks (buf aged7 b))) [1, 2, 3, 4] =
     [(0, 10), (0, 5), (0, 5), (1, 0)] \<and>
   lru_first (buf aged7) (head aged7 (HASH (sint (54::u32)))) 2 \<and>
   result_buf (bget_spin 1 54 aged7) = Some 2 \<and>
   field_after dev 2 (bget_spin 1 54 aged7) = Some 1 \<and>
   field_after blockno 2 (bget_spin 1 54 aged7) = Some 54 \<and>
   field_after valid 2 (bget_spin 1 54 aged7) = Some 0 \<and>
   field_after refcnt 2 (bget_spin 1 54 aged7) = Some 1 \<and>
   0 \<le> HASH (sint (15::u32)) \<and> lookup aged2 (HASH (sint (15::u32))) 1 15 = None \<and>
   (\<exists>b \<in> set (head aged2 (HASH (sint (15::u32)))). refcnt (buf aged2 b) = 0) \<and>
   lru_first (buf aged2) (head aged2 (HASH (sint (15::u32)))) 0 \<and>
   result_buf (bget_spin 1 15 aged2) = Some 0"
proof -
  have h: "0 \<le> HASH (sint (54::u32))" "lookup aged7 (HASH (sint (54::u32))) 1 54 = None"
    "\<exists>b \<in> set (head aged7 (HASH (sint (54::u32)))). refcnt (buf aged7 b) = 0"
    "lru_first (buf aged7) (head aged7 (HASH (sint (54::u32)))) 2"
    by code_simp+
  have c: "head aged7 (HASH (sint (54::u32))) = [1, 2, 3, 4]"
    "map (\<lambda>b. (refcnt (buf aged7 b), mticks (buf aged7 b))) [1, 2, 3, 4] =
       [(0, 10), (0, 5), (0, 5), (1, 0)]"
    by code_simp+
  have g: "0 \<le> HASH (sint (15::u32))" "lookup aged2 (HASH (sint (15::u32))) 1 15 = None"
    "\<exists>b \<in> set (head aged2 (HASH (sint (15::u32)))). refcnt (buf aged2 b) = 0"
    "lru_first (buf aged2) (head aged2 (HASH (sint (15::u32)))) 0"
    by code_simp+
  note t7 = bget_inplace_lru[OF h(1,2,3), THEN conjunct2, rule_format, OF h(4), THEN conjunct1]
  note t2 = bget_inplace_lru[OF g(1,2,3), THEN conjunct2, rule_format, OF g(4), THEN conjunct1]
  have r7: "result_buf (bget_spin 1 54 aged7) = Some 2"
    "field_after dev 2 (bget_spin 1 54 aged7) = Some 1"
    "field_after blockno 2 (bget_spin 1 54 aged7) = Some 54"
    "field_after valid 2 (bget_spin 1 54 aged7) = Some 0"
    "field_after refcnt 2 (bget_spin 1 54 aged7) = Some 1"
    unfolding t7 by (simp_all add: result_simps taken_def)
  have r2: "result_buf (bget_spin 1 15 aged2) = Some 0"
    unfolding t2 by (simp add: result_simps)
  show ?thesis
    using h c g r7 r2 by simp
qed

text \<open>
  C3 as stated fails in its last part. In \<open>aged2\<close> both buffers are valid with count 0, buffer
  1 (block 1, bucket 1) has ticks 5 and buffer 0 (block 2, bucket 2) has ticks 10. A request for
  the new block 15, which maps to bucket 2, takes buffer 0 and leaves buffer 1, the one with the
  smallest ticks, cached.
\<close>

theorem bget_global_lru_counterexample:
  "valid (buf aged2 0) = 1 \<and> valid (buf aged2 1) = 1 \<and>
   refcnt (buf aged2 0) = 0 \<and> refcnt (buf aged2 1) = 0 \<and>
   mticks (buf aged2 1) < mticks (buf aged2 0) \<and>
   (dev (buf aged2 0), blockno (buf aged2 0)) = (1, 2) \<and>
   (dev (buf aged2 1), blockno (buf aged2 1)) = (1, 1) \<and>
   result_buf (bget 1 15 aged2) = Some 0 \<and>
   field_after blockno 0 (bget 1 15 aged2) = Some 15 \<and>
   field_after blockno 1 (bget 1 15 aged2) = Some 1 \<and>
   field_after valid 1 (bget 1 15 aged2) = Some 1"
  by code_simp

subsection \<open>Replacement from another bucket\<close>

lemma moved_fields:
  assumes "j \<noteq> bid"
  shows "head (moved d bn bid j p evs s) j = remove1 p (head s j)"
    "head (moved d bn bid j p evs s) bid = p # head s bid"
    "\<forall>i. i \<noteq> j \<and> i \<noteq> bid \<longrightarrow> head (moved d bn bid j p evs s) i = head s i"
    "buf (moved d bn bid j p evs s) p = (buf s p)\<lparr>dev := d, blockno := bn, refcnt := 1, valid := 0\<rparr>"
    "\<forall>b. b \<noteq> p \<longrightarrow> buf (moved d bn bid j p evs s) b = buf s b"
  using assms by (simp_all add: moved_def)

text \<open>
  C4 (amended). When the block number maps to the bucket \<open>bid\<close>, the scan of that bucket
  misses and the bucket holds no buffer with count 0, \<open>bget\<close> visits the buckets
  \<open>(bid + 1) mod 13\<close>, \<open>(bid + 2) mod 13\<close>, ... in this order, one bucket lock at a time in
  addition to the lock of \<open>bid\<close>, and stops at the first bucket that holds a buffer with count
  0: with \<open>m\<close> buckets before it that hold none, it takes the buffer of that bucket with the
  oldest ticks among those with count 0, the first met among equals (\<open>lru_first\<close>), whatever
  the later buckets hold. It removes the buffer from the list of that bucket, puts it at the
  front of the list of \<open>bid\<close>, and gives it the key, valid 0 and count 1; no other list and no
  other buffer changes. Such a bucket and buffer exist as soon as one of the twelve other
  buckets holds a buffer with count 0. When none of them does, \<open>bget\<close> releases its locks and
  panics with \<open>bget: no buffers\<close>, with no buffer and no list changed.
\<close>

theorem bget_steal:
  assumes "0 \<le> HASH (sint bn)"
    and "lookup s (HASH (sint bn)) d bn = None"
    and "\<forall>b \<in> set (head s (HASH (sint bn))). refcnt (buf s b) \<noteq> 0"
  shows "(\<forall>m p. m < 12 \<and>
            (\<forall>k<m. \<forall>b \<in> set (head s ((HASH (sint bn) + 1 + int k) mod 13)). refcnt (buf s b) \<noteq> 0) \<and>
            lru_first (buf s) (head s ((HASH (sint bn) + 1 + int m) mod 13)) p \<longrightarrow>
            (\<exists>s'. bget_spin d bn s = Inr (p, s') \<and>
               s' = moved d bn (HASH (sint bn)) ((HASH (sint bn) + 1 + int m) mod 13) p
                      ([Acquire (Bucket (HASH (sint bn))), Release (Bucket (HASH (sint bn))),
                        Acquire Block, Acquire (Bucket (HASH (sint bn)))] @
                       scan_events (HASH (sint bn)) 1 m @
                       move_events (HASH (sint bn)) ((HASH (sint bn) + 1 + int m) mod 13) p @
                       [Release (Bucket (HASH (sint bn))), Release Block]) s \<and>
               head s' ((HASH (sint bn) + 1 + int m) mod 13) =
                 remove1 p (head s ((HASH (sint bn) + 1 + int m) mod 13)) \<and>
               head s' (HASH (sint bn)) = p # head s (HASH (sint bn)) \<and>
               (\<forall>i. i \<noteq> (HASH (sint bn) + 1 + int m) mod 13 \<and> i \<noteq> HASH (sint bn) \<longrightarrow>
                  head s' i = head s i) \<and>
               buf s' p = (buf s p)\<lparr>dev := d, blockno := bn, refcnt := 1, valid := 0\<rparr> \<and>
               (\<forall>b. b \<noteq> p \<longrightarrow> buf s' b = buf s b))) \<and>
         ((\<exists>k<12. \<exists>b \<in> set (head s ((HASH (sint bn) + 1 + int k) mod 13)). refcnt (buf s b) = 0) \<longrightarrow>
            (\<exists>m p. m < 12 \<and>
               (\<forall>k<m. \<forall>b \<in> set (head s ((HASH (sint bn) + 1 + int k) mod 13)).
                  refcnt (buf s b) \<noteq> 0) \<and>
               lru_first (buf s) (head s ((HASH (sint bn) + 1 + int m) mod 13)) p)) \<and>
         ((\<forall>k<12. \<forall>b \<in> set (head s ((HASH (sint bn) + 1 + int k) mod 13)). refcnt (buf s b) \<noteq> 0) \<longrightarrow>
            (\<exists>s'. bget_spin d bn s = Inl (Panic ''bget: no buffers'', s') \<and>
                  buf s' = buf s \<and> head s' = head s)) \<and>
         ((\<forall>i. \<forall>b \<in> set (head s i). refcnt (buf s b) \<noteq> 0) \<longrightarrow>
            result_error (bget_spin d bn s) = Some (Panic ''bget: no buffers''))"
proof -
  let ?bid = "HASH (sint bn)"
  let ?l = "[Acquire (Bucket ?bid), Release (Bucket ?bid)]"
  let ?s1 = "s\<lparr>locklog := locklog s @ ?l\<rparr>"
  have rg: "0 \<le> ?bid" "?bid < 13"
    using assms(1) HASH_less[of "sint bn"] by (simp_all add: NBUCKET_def)
  have lk: "lookup ?s1 ?bid d bn = None" using assms(2) by (simp add: lookup_def)
  have nf: "\<forall>b \<in> set (head ?s1 ?bid). refcnt (buf ?s1 b) \<noteq> 0" using assms(3) by simp
  have A: "\<exists>s'. bget_spin d bn s = Inr (p, s') \<and>
               s' = moved d bn ?bid ((?bid + 1 + int m) mod 13) p
                      ([Acquire (Bucket ?bid), Release (Bucket ?bid),
                        Acquire Block, Acquire (Bucket ?bid)] @
                       scan_events ?bid 1 m @
                       move_events ?bid ((?bid + 1 + int m) mod 13) p @
                       [Release (Bucket ?bid), Release Block]) s \<and>
               head s' ((?bid + 1 + int m) mod 13) = remove1 p (head s ((?bid + 1 + int m) mod 13)) \<and>
               head s' ?bid = p # head s ?bid \<and>
               (\<forall>i. i \<noteq> (?bid + 1 + int m) mod 13 \<and> i \<noteq> ?bid \<longrightarrow> head s' i = head s i) \<and>
               buf s' p = (buf s p)\<lparr>dev := d, blockno := bn, refcnt := 1, valid := 0\<rparr> \<and>
               (\<forall>b. b \<noteq> p \<longrightarrow> buf s' b = buf s b)"
    if h: "m < 12 \<and>
            (\<forall>k<m. \<forall>b \<in> set (head s ((?bid + 1 + int k) mod 13)). refcnt (buf s b) \<noteq> 0) \<and>
            lru_first (buf s) (head s ((?bid + 1 + int m) mod 13)) p" for m p
  proof -
    have m: "m < 12" using h by simp
    have sk: "\<forall>k<m. \<forall>b \<in> set (head ?s1 ((?bid + 1 + int k) mod 13)). refcnt (buf ?s1 b) \<noteq> 0"
      using h by simp
    have lf: "lru_first (buf ?s1) (head ?s1 ((?bid + 1 + int m) mod 13)) p"
      using h by simp
    have ne: "(?bid + 1 + int m) mod 13 \<noteq> ?bid"
      using cyc_ne[OF rg, of "1 + int m"] m by (simp add: algebra_simps)
    have e: "bget_spin d bn s =
       Inr (p, moved d bn ?bid ((?bid + 1 + int m) mod 13) p
                      ([Acquire (Bucket ?bid), Release (Bucket ?bid),
                        Acquire Block, Acquire (Bucket ?bid)] @
                       scan_events ?bid 1 m @
                       move_events ?bid ((?bid + 1 + int m) mod 13) p @
                       [Release (Bucket ?bid), Release Block]) s)"
      unfolding bget_spin_miss[OF assms(1,2)] bget_evict_found[OF rg lk nf m sk lf] moved_log
      by simp
    show ?thesis
      unfolding e using moved_fields[OF ne] by simp
  qed
  have B: "\<exists>s'. bget_spin d bn s = Inl (Panic ''bget: no buffers'', s') \<and>
                buf s' = buf s \<and> head s' = head s"
    if h: "\<forall>k<12. \<forall>b \<in> set (head s ((?bid + 1 + int k) mod 13)). refcnt (buf s b) \<noteq> 0"
  proof -
    have sk: "\<forall>k<12. \<forall>b \<in> set (head ?s1 ((?bid + 1 + int k) mod 13)). refcnt (buf ?s1 b) \<noteq> 0"
      using h by simp
    show ?thesis
      unfolding bget_spin_miss[OF assms(1,2)] bget_evict_panic[OF rg lk nf sk]
      by simp
  qed
  have C: "\<exists>m p. m < 12 \<and>
               (\<forall>k<m. \<forall>b \<in> set (head s ((?bid + 1 + int k) mod 13)). refcnt (buf s b) \<noteq> 0) \<and>
               lru_first (buf s) (head s ((?bid + 1 + int m) mod 13)) p"
    if h: "\<exists>k<12. \<exists>b \<in> set (head s ((?bid + 1 + int k) mod 13)). refcnt (buf s b) = 0"
  proof (cases rule: bget_evict_paths[OF rg, of s d bn])
    case (1 r)
    then show ?thesis using assms(2) by simp
  next
    case (2 r)
    then have "r \<in> set (head s ?bid)" "refcnt (buf s r) = 0" by (simp_all add: lru_first_def)
    then show ?thesis using assms(3) by blast
  next
    case (3 r m)
    show ?thesis
      using 3(3,4,5) by blast
  next
    case 4
    then show ?thesis using h by blast
  qed
  have D: "result_error (bget_spin d bn s) = Some (Panic ''bget: no buffers'')"
    if h: "\<forall>i. \<forall>b \<in> set (head s i). refcnt (buf s b) \<noteq> 0"
  proof -
    have "\<forall>k<12. \<forall>b \<in> set (head s ((?bid + 1 + int k) mod 13)). refcnt (buf s b) \<noteq> 0"
      using h by simp
    from B[OF this] show ?thesis by (auto simp: result_simps)
  qed
  show ?thesis
    apply (intro conjI allI impI)
    subgoal for m p by (rule A)
    subgoal by (rule C)
    subgoal by (rule B)
    subgoal by (rule D)
    done
qed

theorem bget_steal_witness:
  "0 \<le> HASH (sint (26::u32)) \<and> lookup aged7 (HASH (sint (26::u32))) 1 26 = None \<and>
   head aged7 (HASH (sint (26::u32))) = [6] \<and> refcnt (buf aged7 6) = 1 \<and>
   head aged7 ((HASH (sint (26::u32)) + 1 + int 0) mod 13) = [5] \<and> refcnt (buf aged7 5) = 1 \<and>
   head aged7 ((HASH (sint (26::u32)) + 1 + int 1) mod 13) = [1, 2, 3, 4] \<and>
   map (\<lambda>b. (refcnt (buf aged7 b), mticks (buf aged7 b))) [1, 2, 3, 4] =
     [(0, 10), (0, 5), (0, 5), (1, 0)] \<and>
   lru_first (buf aged7) (head aged7 ((HASH (sint (26::u32)) + 1 + int 1) mod 13)) 2 \<and>
   result_buf (bget_spin 1 26 aged7) = Some 2 \<and>
   field_after blockno 2 (bget_spin 1 26 aged7) = Some 26 \<and>
   field_after valid 2 (bget_spin 1 26 aged7) = Some 0 \<and>
   field_after refcnt 2 (bget_spin 1 26 aged7) = Some 1 \<and>
   head (end_state (bget_spin 1 26 aged7)) 0 = [2, 6] \<and>
   head (end_state (bget_spin 1 26 aged7)) 2 = [1, 3, 4] \<and>
   head busy2 0 = [1, 0] \<and> refcnt (buf busy2 0) = 1 \<and> refcnt (buf busy2 1) = 1 \<and>
   result_error (bget_spin 1 1 busy2) = Some (Panic ''bget: no buffers'')"
proof -
  have H: "HASH (sint (26::u32)) = 0" "HASH (sint (1::u32)) = 1" "HASH 1 = 1"
    by (simp_all add: HASH_def NBUCKET_def)
  have h: "0 \<le> HASH (sint (26::u32))" "lookup aged7 (HASH (sint (26::u32))) 1 26 = None"
    "\<forall>b \<in> set (head aged7 (HASH (sint (26::u32)))). refcnt (buf aged7 b) \<noteq> 0"
    by code_simp+
  have c: "head aged7 (HASH (sint (26::u32))) = [6]" "refcnt (buf aged7 6) = 1"
    "head aged7 ((HASH (sint (26::u32)) + 1 + int 0) mod 13) = [5]" "refcnt (buf aged7 5) = 1"
    "head aged7 ((HASH (sint (26::u32)) + 1 + int 1) mod 13) = [1, 2, 3, 4]"
    "map (\<lambda>b. (refcnt (buf aged7 b), mticks (buf aged7 b))) [1, 2, 3, 4] =
       [(0, 10), (0, 5), (0, 5), (1, 0)]"
    "head aged7 2 = [1, 2, 3, 4]" "head aged7 0 = [6]"
    by code_simp+
  have lf: "lru_first (buf aged7) (head aged7 ((HASH (sint (26::u32)) + 1 + int 1) mod 13)) 2"
    by code_simp
  have sk: "\<forall>k<1. \<forall>b \<in> set (head aged7 ((HASH (sint (26::u32)) + 1 + int k) mod 13)).
       refcnt (buf aged7 b) \<noteq> 0"
    using c(3,4) by simp
  have pre: "1 < (12::nat) \<and>
      (\<forall>k<1. \<forall>b \<in> set (head aged7 ((HASH (sint (26::u32)) + 1 + int k) mod 13)).
         refcnt (buf aged7 b) \<noteq> 0) \<and>
      lru_first (buf aged7) (head aged7 ((HASH (sint (26::u32)) + 1 + int 1) mod 13)) 2"
    using sk lf by simp
  obtain s' where s': "bget_spin 1 26 aged7 = Inr (2, s')"
    "head s' ((HASH (sint (26::u32)) + 1 + int 1) mod 13) =
       remove1 2 (head aged7 ((HASH (sint (26::u32)) + 1 + int 1) mod 13))"
    "head s' (HASH (sint (26::u32))) = 2 # head aged7 (HASH (sint (26::u32)))"
    "buf s' 2 = (buf aged7 2)\<lparr>dev := 1, blockno := 26, refcnt := 1, valid := 0\<rparr>"
    using bget_steal[OF h, THEN conjunct1, rule_format, of 1 2, OF pre] by blast
  have A: "result_buf (bget_spin 1 26 aged7) = Some 2"
    "field_after blockno 2 (bget_spin 1 26 aged7) = Some 26"
    "field_after valid 2 (bget_spin 1 26 aged7) = Some 0"
    "field_after refcnt 2 (bget_spin 1 26 aged7) = Some 1"
    "head (end_state (bget_spin 1 26 aged7)) 0 = [2, 6]"
    "head (end_state (bget_spin 1 26 aged7)) 2 = [1, 3, 4]"
    using s'(2,3) c(7,8) unfolding H by (simp_all add: s'(1,4) result_simps)
  have g: "0 \<le> HASH (sint (1::u32))" "lookup busy2 (HASH (sint (1::u32))) 1 1 = None"
    "\<forall>b \<in> set (head busy2 (HASH (sint (1::u32)))). refcnt (buf busy2 b) \<noteq> 0"
    "\<forall>i. \<forall>b \<in> set (head busy2 i). refcnt (buf busy2 b) \<noteq> 0"
    by (simp_all add: busy2_def cache2_eq lookup_def H zero_buf_def)
  have B: "result_error (bget_spin 1 1 busy2) = Some (Panic ''bget: no buffers'')"
    using bget_steal[OF g(1,2,3)] g(4) by blast
  have b: "head busy2 0 = [1, 0]" "refcnt (buf busy2 0) = 1" "refcnt (buf busy2 1) = 1"
    by code_simp+
  show ?thesis using h(1,2) c(1-6) lf A B b by simp
qed

text \<open>
  C4 as stated fails: the buffer taken is not the oldest among the buffers with count 0 of the
  other buckets. In \<open>aged7\<close> a request for block 26, which maps to bucket 0, finds bucket 0
  without a free buffer, passes bucket 1, which has none either, and takes buffer 2 (ticks 5)
  from bucket 2, while buffer 0 in bucket 3 is free with the older ticks 2 and stays cached.
\<close>

theorem bget_steal_oldest_counterexample:
  "HASH (sint (26::u32)) = 0 \<and> lookup aged7 0 1 26 = None \<and>
   head aged7 0 = [6] \<and> refcnt (buf aged7 6) = 1 \<and>
   head aged7 1 = [5] \<and> refcnt (buf aged7 5) = 1 \<and>
   head aged7 2 = [1, 2, 3, 4] \<and> head aged7 3 = [0] \<and>
   refcnt (buf aged7 2) = 0 \<and> mticks (buf aged7 2) = 5 \<and>
   refcnt (buf aged7 0) = 0 \<and> mticks (buf aged7 0) = 2 \<and>
   mticks (buf aged7 0) < mticks (buf aged7 2) \<and>
   result_buf (bget 1 26 aged7) = Some 2 \<and>
   field_after blockno 2 (bget 1 26 aged7) = Some 26 \<and>
   field_after blockno 0 (bget 1 26 aged7) = Some 3 \<and>
   field_after valid 0 (bget 1 26 aged7) = Some 1 \<and>
   head (end_state (bget 1 26 aged7)) 3 = [0]"
  by code_simp

subsection \<open>Buffers in use are not replaced\<close>

lemma bget_Inr:
  assumes "bget d bn s = Inr (r, s')"
  obtains s1 where "bget_spin d bn s = Inr (r, s1)" "\<not> locked (buf s1 r)"
    "s' = s1\<lparr>buf := (buf s1)(r := (buf s1 r)\<lparr>locked := True\<rparr>)\<rparr>"
  using assms
  by (auto simp: bget_def acquiresleep_def split: sum.splits if_splits)

lemma bget_Inl:
  assumes "bget d bn s = Inl (e, s')"
  shows "bget_spin d bn s = Inl (e, s') \<or>
         (\<exists>r. e = Sleeps r \<and> bget_spin d bn s = Inr (r, s') \<and> locked (buf s' r))"
  using assms
  by (auto simp: bget_def acquiresleep_def split: sum.splits if_splits)

lemma bget_spin_Inl:
  assumes "bget_spin d bn s = Inl (e, s1)"
  shows "buf s1 = buf s \<and> head s1 = head s \<and> disk s1 = disk s \<and> iolog s1 = iolog s \<and>
         (e = OutOfBounds \<or> e = Panic ''bget: no buffers'')"
proof (cases "0 \<le> HASH (sint bn)")
  case False
  then show ?thesis using assms by (simp add: bget_spin_def Let_def)
next
  case True
  let ?bid = "HASH (sint bn)"
  let ?s1 = "s\<lparr>locklog := locklog s @ [Acquire (Bucket ?bid), Release (Bucket ?bid)]\<rparr>"
  have rg: "0 \<le> ?bid" "?bid < 13"
    using True HASH_less[of "sint bn"] by (simp_all add: NBUCKET_def)
  show ?thesis
  proof (cases "lookup s ?bid d bn")
    case (Some b)
    then show ?thesis using assms bget_spin_hit[OF True Some] by simp
  next
    case None
    have e: "bget_evict d bn ?bid ?s1 = Inl (e, s1)"
      using assms bget_spin_miss[OF True None] by simp
    show ?thesis
    proof (cases rule: bget_evict_paths[OF rg, of ?s1 d bn])
      case (1 r)
      then show ?thesis using e by simp
    next
      case (2 r)
      then show ?thesis using e by simp
    next
      case (3 r m)
      then show ?thesis using e by simp
    next
      case 4
      then show ?thesis using e by auto
    qed
  qed
qed

lemma bget_spin_held:
  assumes r: "bget_spin d bn s = Inr (r, s1)" and h: "refcnt (buf s b) \<noteq> 0"
  shows "(b \<noteq> r \<longrightarrow> buf s1 b = buf s b) \<and>
         (b = r \<longrightarrow> lookup s (HASH (sint bn)) d bn = Some b \<and>
                    buf s1 b = (buf s b)\<lparr>refcnt := refcnt (buf s b) + 1\<rparr>)"
proof (cases rule: bget_spin_cases[OF r])
  case (1 evs)
  then show ?thesis by (simp add: hit_def)
next
  case (2 evs)
  then have "b \<noteq> r" using h by (auto simp: lru_first_def)
  then show ?thesis using 2 by (simp add: taken_def)
next
  case (3 evs m)
  then have "b \<noteq> r" using h by (auto simp: lru_first_def)
  then show ?thesis using 3 by (simp add: moved_def)
qed

text \<open>
  C2 (amended). Across \<open>bget\<close>, however the call ends, every buffer whose count is not 0
  keeps its device, block number, valid flag and data. Up to the point where the caller asks
  for the sleep-lock (\<open>bget_spin\<close>) the buffer is unchanged altogether unless it is the buffer
  the call hands out, and then the call was a hit on it and only its count has changed, to
  one more: a buffer whose count is not 0 is never the one replaced, whether its sleep-lock is
  held or not. The same holds of a whole \<open>bget\<close> that returns, which has taken the sleep-lock
  of the buffer it returns, and of one that ends because the caller sleeps on the sleep-lock
  of the buffer that was hit, or because of a panic.
\<close>

theorem bget_keeps_held:
  assumes "refcnt (buf s b) \<noteq> 0"
  shows "dev (buf (end_state (bget_spin d bn s)) b) = dev (buf s b) \<and>
         blockno (buf (end_state (bget_spin d bn s)) b) = blockno (buf s b) \<and>
         valid (buf (end_state (bget_spin d bn s)) b) = valid (buf s b) \<and>
         data (buf (end_state (bget_spin d bn s)) b) = data (buf s b) \<and>
         locked (buf (end_state (bget_spin d bn s)) b) = locked (buf s b) \<and>
         (result_buf (bget_spin d bn s) \<noteq> Some b \<longrightarrow>
            buf (end_state (bget_spin d bn s)) b = buf s b) \<and>
         (result_buf (bget_spin d bn s) = Some b \<longrightarrow>
            lookup s (HASH (sint bn)) d bn = Some b \<and>
            buf (end_state (bget_spin d bn s)) b = (buf s b)\<lparr>refcnt := refcnt (buf s b) + 1\<rparr>) \<and>
         (\<forall>r s'. bget d bn s = Inr (r, s') \<longrightarrow>
            dev (buf s' b) = dev (buf s b) \<and> blockno (buf s' b) = blockno (buf s b) \<and>
            valid (buf s' b) = valid (buf s b) \<and> data (buf s' b) = data (buf s b) \<and>
            (b \<noteq> r \<longrightarrow> buf s' b = buf s b) \<and>
            (b = r \<longrightarrow> lookup s (HASH (sint bn)) d bn = Some b \<and>
                       refcnt (buf s' b) = refcnt (buf s b) + 1)) \<and>
         (\<forall>e s'. bget d bn s = Inl (e, s') \<longrightarrow>
            dev (buf s' b) = dev (buf s b) \<and> blockno (buf s' b) = blockno (buf s b) \<and>
            valid (buf s' b) = valid (buf s b) \<and> data (buf s' b) = data (buf s b) \<and>
            (e \<noteq> Sleeps b \<longrightarrow> buf s' b = buf s b) \<and>
            (e = Sleeps b \<longrightarrow> lookup s (HASH (sint bn)) d bn = Some b \<and> locked (buf s b) \<and>
                              buf s' b = (buf s b)\<lparr>refcnt := refcnt (buf s b) + 1\<rparr>))"
proof -
  have spin: "(b \<noteq> r \<longrightarrow> buf s1 b = buf s b) \<and>
         (b = r \<longrightarrow> lookup s (HASH (sint bn)) d bn = Some b \<and>
                    buf s1 b = (buf s b)\<lparr>refcnt := refcnt (buf s b) + 1\<rparr>)"
    if "bget_spin d bn s = Inr (r, s1)" for r s1
    using that assms by (rule bget_spin_held)
  have A: "dev (buf (end_state (bget_spin d bn s)) b) = dev (buf s b) \<and>
         blockno (buf (end_state (bget_spin d bn s)) b) = blockno (buf s b) \<and>
         valid (buf (end_state (bget_spin d bn s)) b) = valid (buf s b) \<and>
         data (buf (end_state (bget_spin d bn s)) b) = data (buf s b) \<and>
         locked (buf (end_state (bget_spin d bn s)) b) = locked (buf s b) \<and>
         (result_buf (bget_spin d bn s) \<noteq> Some b \<longrightarrow>
            buf (end_state (bget_spin d bn s)) b = buf s b) \<and>
         (result_buf (bget_spin d bn s) = Some b \<longrightarrow>
            lookup s (HASH (sint bn)) d bn = Some b \<and>
            buf (end_state (bget_spin d bn s)) b = (buf s b)\<lparr>refcnt := refcnt (buf s b) + 1\<rparr>)"
  proof (cases "bget_spin d bn s")
    case (Inl x)
    obtain e s1 where x: "x = (e, s1)" by (cases x)
    have "buf s1 = buf s" using bget_spin_Inl[of d bn s e s1] Inl x by simp
    then show ?thesis by (simp add: Inl x result_simps)
  next
    case (Inr y)
    obtain r s1 where y: "y = (r, s1)" by (cases y)
    have e: "bget_spin d bn s = Inr (r, s1)" using Inr y by simp
    show ?thesis
      using spin[OF e] by (cases "b = r") (simp_all add: e result_simps)
  qed
  have B: "dev (buf s' b) = dev (buf s b) \<and> blockno (buf s' b) = blockno (buf s b) \<and>
            valid (buf s' b) = valid (buf s b) \<and> data (buf s' b) = data (buf s b) \<and>
            (b \<noteq> r \<longrightarrow> buf s' b = buf s b) \<and>
            (b = r \<longrightarrow> lookup s (HASH (sint bn)) d bn = Some b \<and>
                       refcnt (buf s' b) = refcnt (buf s b) + 1)"
    if g: "bget d bn s = Inr (r, s')" for r s'
  proof -
    obtain s1 where s1: "bget_spin d bn s = Inr (r, s1)"
      "s' = s1\<lparr>buf := (buf s1)(r := (buf s1 r)\<lparr>locked := True\<rparr>)\<rparr>"
      using g by (rule bget_Inr)
    show ?thesis
      using spin[OF s1(1)] s1(2) by (cases "b = r") simp_all
  qed
  have C: "dev (buf s' b) = dev (buf s b) \<and> blockno (buf s' b) = blockno (buf s b) \<and>
            valid (buf s' b) = valid (buf s b) \<and> data (buf s' b) = data (buf s b) \<and>
            (e \<noteq> Sleeps b \<longrightarrow> buf s' b = buf s b) \<and>
            (e = Sleeps b \<longrightarrow> lookup s (HASH (sint bn)) d bn = Some b \<and> locked (buf s b) \<and>
                              buf s' b = (buf s b)\<lparr>refcnt := refcnt (buf s b) + 1\<rparr>)"
    if g: "bget d bn s = Inl (e, s')" for e s'
    using bget_Inl[OF g]
  proof
    assume a: "bget_spin d bn s = Inl (e, s')"
    have "buf s' = buf s" "e \<noteq> Sleeps b" using bget_spin_Inl[OF a] by auto
    then show ?thesis by simp
  next
    assume "\<exists>r. e = Sleeps r \<and> bget_spin d bn s = Inr (r, s') \<and> locked (buf s' r)"
    then obtain r where r: "e = Sleeps r" "bget_spin d bn s = Inr (r, s')" "locked (buf s' r)"
      by blast
    show ?thesis
      using spin[OF r(2)] r(1,3) by (cases "b = r") simp_all
  qed
  show ?thesis
    using A B C by blast
qed

theorem bget_keeps_held_witness:
  "refcnt (buf aged7 4) \<noteq> 0 \<and> locked (buf aged7 4) \<and> mticks (buf aged7 4) = 0 \<and>
   head aged7 2 = [1, 2, 3, 4] \<and>
   result_buf (bget_spin 1 2 aged7) = Some 4 \<and>
   buf (end_state (bget_spin 1 2 aged7)) 4 = (buf aged7 4)\<lparr>refcnt := 2\<rparr> \<and>
   result_error (bget 1 2 aged7) = Some (Sleeps 4) \<and>
   buf (end_state (bget 1 2 aged7)) 4 = (buf aged7 4)\<lparr>refcnt := 2\<rparr> \<and>
   result_buf (bget_spin 1 54 aged7) = Some 2 \<and>
   buf (end_state (bget_spin 1 54 aged7)) 4 = buf aged7 4 \<and>
   result_buf (bget 1 54 aged7) = Some 2 \<and>
   buf (end_state (bget 1 54 aged7)) 4 = buf aged7 4"
proof -
  have h: "refcnt (buf aged7 4) \<noteq> 0" by code_simp
  have a: "locked (buf aged7 4)" "mticks (buf aged7 4) = 0" "head aged7 2 = [1, 2, 3, 4]"
    "result_buf (bget_spin 1 2 aged7) = Some 4" "result_error (bget 1 2 aged7) = Some (Sleeps 4)"
    "result_buf (bget_spin 1 54 aged7) = Some 2" "result_buf (bget 1 54 aged7) = Some 2"
    "refcnt (buf aged7 4) + 1 = 2"
    by code_simp+
  obtain s1 where s1: "bget 1 2 aged7 = Inl (Sleeps 4, s1)"
    using a(5) by (auto simp: result_error_def split: sum.splits prod.splits)
  obtain s2 where s2: "bget 1 54 aged7 = Inr (2, s2)"
    using a(7) by (auto simp: result_buf_def split: sum.splits)
  note t1 = bget_keeps_held[OF h, of 1 2]
  note t2 = bget_keeps_held[OF h, of 1 54]
  have b1: "buf (end_state (bget_spin 1 2 aged7)) 4 = (buf aged7 4)\<lparr>refcnt := 2\<rparr>"
    using t1 a(4,8) by simp
  have b2: "buf (end_state (bget 1 2 aged7)) 4 = (buf aged7 4)\<lparr>refcnt := 2\<rparr>"
    using t1 s1 a(8) by (simp add: result_simps)
  have b3: "buf (end_state (bget_spin 1 54 aged7)) 4 = buf aged7 4"
    using t2 a(6) by simp
  have b4: "buf (end_state (bget 1 54 aged7)) 4 = buf aged7 4"
    using t2 s2 by (simp add: result_simps)
  show ?thesis
    using h a(1-7) b1 b2 b3 b4 by simp
qed

text \<open>
  C2 as stated fails for the count itself: in \<open>pinned2\<close> buffer 1 caches block 1 with count 1
  and a free sleep-lock (it was pinned before its release), and a call for block 1 hits it
  and returns it with count 2.
\<close>

theorem bget_hit_refcnt_counterexample:
  "refcnt (buf pinned2 1) = 1 \<and> locked (buf pinned2 1) = False \<and>
   result_buf (bget 1 1 pinned2) = Some 1 \<and>
   field_after refcnt 1 (bget 1 1 pinned2) = Some 2"
  by code_simp

subsection \<open>The order of the locks\<close>

lemma lock_order_scan:
  assumes "0 \<le> bid" "bid < 13" "1 \<le> a" "a + int m \<le> 13"
  shows "lock_order bid [Bucket bid, Block] (scan_events bid a m @ evs) =
           lock_order bid [Bucket bid, Block] evs \<and>
         held_after [Bucket bid, Block] (scan_events bid a m @ evs) =
           held_after [Bucket bid, Block] evs"
  using assms(3,4)
proof (induction m arbitrary: a)
  case 0
  then show ?case by (simp add: scan_events_def)
next
  case (Suc m)
  have "a \<le> 12" using Suc.prems(2) by simp
  then have ne: "(bid + a) mod 13 \<noteq> bid"
    using cyc_ne[OF assms(1,2) Suc.prems(1)] by simp
  have "1 \<le> a + 1" "a + 1 + int m \<le> 13" using Suc.prems by simp_all
  from Suc.IH[OF this] show ?case
    using ne by (simp add: scan_events_Suc is_bucket_def)
qed

lemma lock_order_return:
  assumes "0 \<le> bid" "bid < 13" "m \<le> 12"
  shows "lock_order bid []
           ([Acquire Block, Acquire (Bucket bid)] @ scan_events bid 1 m @
            [Release (Bucket bid), Release Block]) \<and>
         held_after []
           ([Acquire Block, Acquire (Bucket bid)] @ scan_events bid 1 m @
            [Release (Bucket bid), Release Block]) = []"
proof -
  have "(1::int) \<le> 1" "1 + int m \<le> 13" using assms(3) by simp_all
  from lock_order_scan[OF assms(1,2) this] show ?thesis
    by (simp add: is_bucket_def)
qed

lemma lock_order_move:
  assumes "0 \<le> bid" "bid < 13" "m < 12"
  shows "lock_order bid []
           ([Acquire Block, Acquire (Bucket bid)] @ scan_events bid 1 m @
            move_events bid ((bid + 1 + int m) mod 13) p @
            [Release (Bucket bid), Release Block]) \<and>
         held_after []
           ([Acquire Block, Acquire (Bucket bid)] @ scan_events bid 1 m @
            move_events bid ((bid + 1 + int m) mod 13) p @
            [Release (Bucket bid), Release Block]) = []"
proof -
  have ne: "(bid + 1 + int m) mod 13 \<noteq> bid"
    using cyc_ne[OF assms(1,2), of "1 + int m"] assms(3) by (simp add: algebra_simps)
  have "(1::int) \<le> 1" "1 + int m \<le> 13" using assms(3) by simp_all
  from lock_order_scan[OF assms(1,2) this] show ?thesis
    using ne by (simp add: is_bucket_def move_events_def)
qed

text \<open>
  C9 (amended). The events of the miss path of \<open>bget\<close>, from the point where the first scan
  has missed and released the bucket lock, however it ends. They are: the eviction lock
  \<open>bcache.block\<close>, then the lock of the target bucket \<open>bid\<close>; then for each of \<open>m\<close> other
  buckets, in the order \<open>(bid + 1) mod 13\<close>, \<open>(bid + 2) mod 13\<close>, ..., the lock of that bucket
  taken and released again; then, in a migration, the lock of the source bucket taken, the
  buffer taken out of the source list, the lock of the source bucket released and only then the
  buffer linked into the target list; at the end the release of the target bucket's lock and
  of the eviction lock, also before a panic. So the eviction lock is taken with no bucket
  lock held and before every bucket lock; the target bucket's lock is held from then to the
  end; one other bucket lock at a time is held together with it; the buffer is linked into
  the target bucket with the target's lock as the only bucket lock held; and no lock is held
  at the end (\<open>lock_order\<close>, \<open>held_after\<close>). The first scan of \<open>bget\<close> before the miss path
  takes and releases the lock of the target bucket only.
\<close>

theorem bget_lock_order:
  assumes "0 \<le> bid" and "bid < 13"
  shows "(\<exists>evs. locklog (end_state (bget_evict d bn bid s)) = locklog s @ evs \<and>
            lock_order bid [] evs \<and> held_after [] evs = [] \<and>
            ((\<exists>r. result_buf (bget_evict d bn bid s) = Some r \<and>
                  head (end_state (bget_evict d bn bid s)) = head s \<and>
                  evs = [Acquire Block, Acquire (Bucket bid), Release (Bucket bid), Release Block]) \<or>
             (\<exists>r m. m < 12 \<and> result_buf (bget_evict d bn bid s) = Some r \<and>
                  r \<in> set (head s ((bid + 1 + int m) mod 13)) \<and>
                  head (end_state (bget_evict d bn bid s)) bid = r # head s bid \<and>
                  evs = [Acquire Block, Acquire (Bucket bid)] @ scan_events bid 1 m @
                        [Acquire (Bucket ((bid + 1 + int m) mod 13)),
                         Unlink ((bid + 1 + int m) mod 13) r,
                         Release (Bucket ((bid + 1 + int m) mod 13)),
                         Link bid r, Release (Bucket bid), Release Block]) \<or>
             (result_error (bget_evict d bn bid s) = Some (Panic ''bget: no buffers'') \<and>
                  head (end_state (bget_evict d bn bid s)) = head s \<and>
                  evs = [Acquire Block, Acquire (Bucket bid)] @ scan_events bid 1 12 @
                        [Release (Bucket bid), Release Block]))) \<and>
         (bid = HASH (sint bn) \<and> lookup s bid d bn = None \<longrightarrow>
            bget_spin d bn s =
              bget_evict d bn bid
                (s\<lparr>locklog := locklog s @ [Acquire (Bucket bid), Release (Bucket bid)]\<rparr>))"
proof -
  let ?r = "bget_evict d bn bid s"
  let ?ret = "[Acquire Block, Acquire (Bucket bid), Release (Bucket bid), Release Block]"
  have ret: "lock_order bid [] ?ret \<and> held_after [] ?ret = []"
    using lock_order_return[OF assms, of 0] by (simp add: scan_events_def)
  have A: "\<exists>evs. locklog (end_state ?r) = locklog s @ evs \<and>
            lock_order bid [] evs \<and> held_after [] evs = [] \<and>
            ((\<exists>r. result_buf ?r = Some r \<and> head (end_state ?r) = head s \<and> evs = ?ret) \<or>
             (\<exists>r m. m < 12 \<and> result_buf ?r = Some r \<and>
                  r \<in> set (head s ((bid + 1 + int m) mod 13)) \<and>
                  head (end_state ?r) bid = r # head s bid \<and>
                  evs = [Acquire Block, Acquire (Bucket bid)] @ scan_events bid 1 m @
                        [Acquire (Bucket ((bid + 1 + int m) mod 13)),
                         Unlink ((bid + 1 + int m) mod 13) r,
                         Release (Bucket ((bid + 1 + int m) mod 13)),
                         Link bid r, Release (Bucket bid), Release Block]) \<or>
             (result_error ?r = Some (Panic ''bget: no buffers'') \<and>
                  head (end_state ?r) = head s \<and>
                  evs = [Acquire Block, Acquire (Bucket bid)] @ scan_events bid 1 12 @
                        [Release (Bucket bid), Release Block]))"
  proof (cases rule: bget_evict_paths[OF assms, of s d bn])
    case (1 r)
    have "locklog (end_state ?r) = locklog s @ ?ret" "result_buf ?r = Some r"
      "head (end_state ?r) = head s"
      unfolding 1(2) by (simp_all add: result_simps hit_def)
    then show ?thesis using ret by blast
  next
    case (2 r)
    have "locklog (end_state ?r) = locklog s @ ?ret" "result_buf ?r = Some r"
      "head (end_state ?r) = head s"
      unfolding 2(3) by (simp_all add: result_simps taken_def)
    then show ?thesis using ret by blast
  next
    case (3 r m)
    let ?j = "(bid + 1 + int m) mod 13"
    let ?evs = "[Acquire Block, Acquire (Bucket bid)] @ scan_events bid 1 m @
                        [Acquire (Bucket ?j), Unlink ?j r, Release (Bucket ?j),
                         Link bid r, Release (Bucket bid), Release Block]"
    have e: "locklog (end_state ?r) = locklog s @ ?evs" "result_buf ?r = Some r"
      "head (end_state ?r) bid = r # head s bid"
      unfolding 3(6) by (simp_all add: result_simps moved_def move_events_def)
    have m: "r \<in> set (head s ?j)" using 3(5) by (simp add: lru_first_def)
    have lo: "lock_order bid [] ?evs \<and> held_after [] ?evs = []"
      using lock_order_move[OF assms 3(3), of r] by (simp add: move_events_def)
    have "\<exists>r' m'. m' < 12 \<and> result_buf ?r = Some r' \<and>
                  r' \<in> set (head s ((bid + 1 + int m') mod 13)) \<and>
                  head (end_state ?r) bid = r' # head s bid \<and>
                  ?evs = [Acquire Block, Acquire (Bucket bid)] @ scan_events bid 1 m' @
                        [Acquire (Bucket ((bid + 1 + int m') mod 13)),
                         Unlink ((bid + 1 + int m') mod 13) r',
                         Release (Bucket ((bid + 1 + int m') mod 13)),
                         Link bid r', Release (Bucket bid), Release Block]"
      using 3(3) e(2,3) m by blast
    then show ?thesis using e(1) lo by blast
  next
    case 4
    let ?evs = "[Acquire Block, Acquire (Bucket bid)] @ scan_events bid 1 12 @
                        [Release (Bucket bid), Release Block]"
    have e: "locklog (end_state ?r) = locklog s @ ?evs"
      "result_error ?r = Some (Panic ''bget: no buffers'')" "head (end_state ?r) = head s"
      unfolding 4(4) by (simp_all add: result_simps)
    have lo: "lock_order bid [] ?evs \<and> held_after [] ?evs = []"
      by (rule lock_order_return[OF assms]) simp
    show ?thesis using e lo by blast
  qed
  have B: "bget_spin d bn s =
              bget_evict d bn bid
                (s\<lparr>locklog := locklog s @ [Acquire (Bucket bid), Release (Bucket bid)]\<rparr>)"
    if h: "bid = HASH (sint bn) \<and> lookup s bid d bn = None"
  proof -
    have b: "bid = HASH (sint bn)" using h by (rule conjunct1)
    have l: "lookup s bid d bn = None" using h by (rule conjunct2)
    show ?thesis
      using bget_spin_miss[OF assms(1)[unfolded b] l[unfolded b]] unfolding b .
  qed
  show ?thesis using A B by blast
qed

theorem bget_lock_order_witness:
  "(0::int) \<le> 0 \<and> (0::int) < 13 \<and> (0::int) \<le> 1 \<and> (1::int) < 13 \<and>
   locklog aged7 = [] \<and> result_buf (bget_evict 1 26 0 aged7) = Some 2 \<and>
   log_after (bget_evict 1 26 0 aged7) =
     [Acquire Block, Acquire (Bucket 0), Acquire (Bucket 1), Release (Bucket 1),
      Acquire (Bucket 2), Unlink 2 2, Release (Bucket 2), Link 0 2,
      Release (Bucket 0), Release Block] \<and>
   lock_order 0 [] (log_after (bget_evict 1 26 0 aged7)) \<and>
   held_after [] (log_after (bget_evict 1 26 0 aged7)) = [] \<and>
   locklog busy2 = [] \<and>
   result_error (bget_evict 1 1 1 busy2) = Some (Panic ''bget: no buffers'') \<and>
   log_after (bget_evict 1 1 1 busy2) =
     [Acquire Block, Acquire (Bucket 1)] @ scan_events 1 1 12 @
     [Release (Bucket 1), Release Block] \<and>
   lock_order 1 [] (log_after (bget_evict 1 1 1 busy2)) \<and>
   held_after [] (log_after (bget_evict 1 1 1 busy2)) = []"
proof -
  have a: "locklog aged7 = []" "result_buf (bget_evict 1 26 0 aged7) = Some 2"
    "log_after (bget_evict 1 26 0 aged7) =
     [Acquire Block, Acquire (Bucket 0), Acquire (Bucket 1), Release (Bucket 1),
      Acquire (Bucket 2), Unlink 2 2, Release (Bucket 2), Link 0 2,
      Release (Bucket 0), Release Block]"
    "locklog busy2 = []"
    "result_error (bget_evict 1 1 1 busy2) = Some (Panic ''bget: no buffers'')"
    "log_after (bget_evict 1 1 1 busy2) =
     [Acquire Block, Acquire (Bucket 1)] @ scan_events 1 1 12 @
     [Release (Bucket 1), Release Block]"
    by code_simp+
  have r0: "(0::int) \<le> 0" "(0::int) < 13" and r1: "(0::int) \<le> 1" "(1::int) < 13" by simp_all
  have t0: "lock_order 0 [] (log_after (bget_evict 1 26 0 aged7)) \<and>
            held_after [] (log_after (bget_evict 1 26 0 aged7)) = []"
    using bget_lock_order[OF r0, of 1 26 aged7, THEN conjunct1] a(1)
    by (auto simp add: log_after_def)
  have t1: "lock_order 1 [] (log_after (bget_evict 1 1 1 busy2)) \<and>
            held_after [] (log_after (bget_evict 1 1 1 busy2)) = []"
    using bget_lock_order[OF r1, of 1 1 busy2, THEN conjunct1] a(4)
    by (auto simp add: log_after_def)
  show ?thesis
    using a t0 t1 by simp
qed

text \<open>
  C9 as stated fails: the target bucket's lock is not taken after the source bucket's lock is
  released, it is held throughout, so two bucket locks are held at a time. In the call for
  block 1 on the fresh cache of two buffers, after five events the caller holds the locks of
  the buckets 1 (the target) and 2 (which is empty: nothing migrates from it), and during the
  migration from bucket 0 it holds the locks of the buckets 0 and 1; the last events are the
  buffer taken out of bucket 0, the release of bucket 0, the linking into bucket 1 and the
  release of the target bucket 1 and of the eviction lock.
\<close>

theorem bget_two_bucket_locks_counterexample:
  "result_buf (bget 1 1 cache2) = Some 1 \<and>
   head cache2 1 = [] \<and> head cache2 2 = [] \<and> head cache2 0 = [1, 0] \<and>
   take 5 (log_after (bget 1 1 cache2)) =
     [Acquire (Bucket 1), Release (Bucket 1), Acquire Block, Acquire (Bucket 1),
      Acquire (Bucket 2)] \<and>
   held_after [] (take 5 (log_after (bget 1 1 cache2))) = [Bucket 2, Bucket 1, Block] \<and>
   drop 26 (log_after (bget 1 1 cache2)) =
     [Acquire (Bucket 0), Unlink 0 1, Release (Bucket 0), Link 1 1,
      Release (Bucket 1), Release Block] \<and>
   held_after [] (take 27 (log_after (bget 1 1 cache2))) = [Bucket 0, Bucket 1, Block]"
  by code_simp

subsection \<open>The invariant of the cache\<close>

lemma find_first:
  assumes "p \<in> set xs" "P p" "\<forall>x \<in> set xs. x \<noteq> p \<longrightarrow> \<not> P x"
  shows "find P xs = Some p"
  using assms by (induction xs) auto

lemma find_change:
  assumes "find P xs = Some b" "b \<noteq> p" "\<forall>x. x \<noteq> p \<longrightarrow> Q x = P x" "\<not> Q p"
  shows "find Q xs = Some b"
  using assms by (induction xs) (auto split: if_splits)

lemma find_remove1:
  assumes "find P xs = Some b" "b \<noteq> p"
  shows "find P (remove1 p xs) = Some b"
  using assms by (induction xs) (auto split: if_splits)

lemma find_None_iff': "find P xs = None \<longleftrightarrow> (\<forall>x \<in> set xs. \<not> P x)"
  by (induction xs) auto

lemma lookup_Some:
  "lookup s i d bn = Some b \<Longrightarrow> b \<in> set (head s i) \<and> dev (buf s b) = d \<and> blockno (buf s b) = bn"
  unfolding lookup_def by (auto simp: find_Some_iff)

lemma lookup_None:
  "lookup s i d bn = None \<Longrightarrow> b \<in> set (head s i) \<Longrightarrow>
   \<not> (dev (buf s b) = d \<and> blockno (buf s b) = bn)"
  unfolding lookup_def by (auto simp: find_None_iff')

lemma head_binit: "head (binit n s) = (\<lambda>_. [])(0 := rev [0..<n])" "buf (binit n s) = buf s"
proof -
  have "head (binit n s) = (\<lambda>_. [])(0 := rev [0..<n]) \<and> buf (binit n s) = buf s"
  proof (induction n)
    case 0
    then show ?case by (simp add: binit_def fun_eq_iff)
  next
    case (Suc n)
    then show ?case by (simp add: binit_def fun_eq_iff)
  qed
  then show "head (binit n s) = (\<lambda>_. [])(0 := rev [0..<n])" "buf (binit n s) = buf s"
    by simp_all
qed

lemma cache_inv_init: "cache_inv (binit n (boot bsize dsk))"
  by (simp add: cache_inv_def head_binit boot_def used_def zero_buf_def HASH_def NBUCKET_def)

text \<open>A step that moves no buffer, changes no key and takes no new buffer in use.\<close>

lemma cache_inv_frame:
  assumes inv: "cache_inv s"
    and h: "head s' = head s"
    and k: "\<forall>b. dev (buf s' b) = dev (buf s b) \<and> blockno (buf s' b) = blockno (buf s b)"
    and u: "\<forall>b. used (buf s' b) \<longrightarrow> used (buf s b)"
  shows "cache_inv s'"
proof -
  have lk: "lookup s' = lookup s"
    using h k by (simp add: lookup_def fun_eq_iff)
  show ?thesis
    using inv u unfolding cache_inv_def lk h by (simp add: k)
qed


lemma hit_simps:
  "head (hit r evs s) = head s"
  "buf (hit r evs s) b = (if b = r then (buf s r)\<lparr>refcnt := refcnt (buf s r) + 1\<rparr> else buf s b)"
  "disk (hit r evs s) = disk s" "iolog (hit r evs s) = iolog s"
  by (simp_all add: hit_def)

lemma taken_simps:
  "head (taken d bn p evs s) = head s"
  "buf (taken d bn p evs s) b =
     (if b = p then (buf s p)\<lparr>dev := d, blockno := bn, refcnt := 1, valid := 0\<rparr> else buf s b)"
  "disk (taken d bn p evs s) = disk s" "iolog (taken d bn p evs s) = iolog s"
  by (simp_all add: taken_def)

lemma moved_simps:
  "head (moved d bn bid j p evs s) i =
     (if i = bid then p # head s bid else if i = j then remove1 p (head s j) else head s i)"
  "buf (moved d bn bid j p evs s) b =
     (if b = p then (buf s p)\<lparr>dev := d, blockno := bn, refcnt := 1, valid := 0\<rparr> else buf s b)"
  "disk (moved d bn bid j p evs s) = disk s" "iolog (moved d bn bid j p evs s) = iolog s"
  by (simp_all add: moved_def)

lemma bucket_unique:
  assumes "cache_inv s" "b \<in> set (head s i)" "b \<in> set (head s j)"
  shows "i = j"
proof -
  have "HASH (sint (blockno (buf s b))) = i" using assms(1,2) by (simp add: cache_inv_def)
  moreover have "HASH (sint (blockno (buf s b))) = j" using assms(1,3) by (simp add: cache_inv_def)
  ultimately show ?thesis by simp
qed

lemma cache_inv_hit:
  assumes inv: "cache_inv s" and lk: "lookup s i d bn = Some r"
  shows "cache_inv (hit r evs s)"
proof -
  let ?s' = "hit r evs s"
  have r: "r \<in> set (head s i)" "dev (buf s r) = d" "blockno (buf s r) = bn"
    using lookup_Some[OF lk] by simp_all
  have k: "dev (buf ?s' b) = dev (buf s b) \<and> blockno (buf ?s' b) = blockno (buf s b)" for b
    by (simp add: hit_simps)
  have lk': "lookup ?s' = lookup s"
    using k by (simp add: lookup_def fun_eq_iff hit_simps)
  have u: "used (buf ?s' b) \<Longrightarrow> b \<noteq> r \<Longrightarrow> used (buf s b)" for b
    by (simp add: hit_simps)
  have E: "\<forall>i. \<forall>b \<in> set (head s i). HASH (sint (blockno (buf s b))) = i"
    using inv by (simp add: cache_inv_def)
  have F: "lookup ?s' j (dev (buf ?s' b)) (blockno (buf ?s' b)) = Some b"
    if "b \<in> set (head s j)" "used (buf ?s' b)" for j b
  proof (cases "b = r")
    case True
    have "j = i" using bucket_unique[OF inv _ r(1), of j] that(1) True by simp
    then show ?thesis using lk r True by (simp add: lk' k)
  next
    case False
    then have "used (buf s b)" using u that(2) by simp
    then show ?thesis using inv that(1) by (simp add: cache_inv_def lk' k)
  qed
  have G: "\<exists>j. b \<in> set (head s j)" if "used (buf ?s' b)" for b
  proof (cases "b = r")
    case True
    then show ?thesis using r(1) by blast
  next
    case False
    then have "used (buf s b)" using u that by simp
    then show ?thesis using inv by (simp add: cache_inv_def)
  qed
  show ?thesis
    unfolding cache_inv_def
    using inv F G by (simp add: cache_inv_def hit_simps(1) k)
qed

text \<open>A miss in the target bucket: no buffer in use anywhere else has the key either.\<close>

lemma other_key:
  assumes inv: "cache_inv s" and lk: "lookup s bid d bn = None" and hb: "HASH (sint bn) = bid"
    and b: "b \<in> set (head s i)"
  shows "\<not> (dev (buf s b) = d \<and> blockno (buf s b) = bn)"
proof (cases "i = bid")
  case True
  then show ?thesis using lookup_None[OF lk] b by simp
next
  case False
  have "HASH (sint (blockno (buf s b))) = i" using inv b by (simp add: cache_inv_def)
  then show ?thesis using False hb by auto
qed

lemma cache_inv_taken:
  assumes inv: "cache_inv s" and lk: "lookup s bid d bn = None" and hb: "HASH (sint bn) = bid"
    and lf: "lru_first (buf s) (head s bid) p"
  shows "cache_inv (taken d bn p evs s)"
proof -
  let ?s' = "taken d bn p evs s"
  have p: "p \<in> set (head s bid)" using lf by (simp add: lru_first_def)
  have E: "\<forall>i. \<forall>b \<in> set (head s i). HASH (sint (blockno (buf s b))) = i"
    using inv by (simp add: cache_inv_def)
  have only: "i = bid" if "p \<in> set (head s i)" for i
    using bucket_unique[OF inv that p] .
  have E': "HASH (sint (blockno (buf ?s' b))) = i" if "b \<in> set (head s i)" for i b
  proof (cases "b = p")
    case True
    then have "i = bid" using only that by simp
    then show ?thesis using True hb by (simp add: taken_simps)
  next
    case False
    then show ?thesis using E that by (simp add: taken_simps)
  qed
  have F: "lookup ?s' i (dev (buf ?s' b)) (blockno (buf ?s' b)) = Some b"
    if b: "b \<in> set (head s i)" and ub: "used (buf ?s' b)" for i b
  proof (cases "b = p")
    case True
    have i: "i = bid" using only b True by simp
    have "find (\<lambda>x. dev (buf ?s' x) = d \<and> blockno (buf ?s' x) = bn) (head s bid) = Some p"
    proof (rule find_first[OF p])
      show "dev (buf ?s' p) = d \<and> blockno (buf ?s' p) = bn" by (simp add: taken_simps)
      show "\<forall>x\<in>set (head s bid). x \<noteq> p \<longrightarrow> \<not> (dev (buf ?s' x) = d \<and> blockno (buf ?s' x) = bn)"
        using lookup_None[OF lk] by (simp add: taken_simps)
    qed
    then show ?thesis using True i by (simp add: lookup_def taken_simps)
  next
    case False
    then have "used (buf s b)" using ub by (simp add: taken_simps)
    then have old: "find (\<lambda>x. dev (buf s x) = dev (buf s b) \<and> blockno (buf s x) = blockno (buf s b))
                 (head s i) = Some b"
      using inv b by (simp add: cache_inv_def lookup_def)
    have nk: "\<not> (dev (buf s b) = d \<and> blockno (buf s b) = bn)"
      by (rule other_key[OF inv lk hb b])
    have "find (\<lambda>x. dev (buf ?s' x) = dev (buf s b) \<and> blockno (buf ?s' x) = blockno (buf s b))
                 (head s i) = Some b"
    proof (rule find_change[OF old False])
      show "\<forall>x. x \<noteq> p \<longrightarrow>
          (dev (buf ?s' x) = dev (buf s b) \<and> blockno (buf ?s' x) = blockno (buf s b)) =
          (dev (buf s x) = dev (buf s b) \<and> blockno (buf s x) = blockno (buf s b))"
        by (simp add: taken_simps)
      show "\<not> (dev (buf ?s' p) = dev (buf s b) \<and> blockno (buf ?s' p) = blockno (buf s b))"
        using nk by (auto simp add: taken_simps)
    qed
    then show ?thesis using False by (simp add: lookup_def taken_simps)
  qed
  have G: "\<exists>i. b \<in> set (head s i)" if "used (buf ?s' b)" for b
  proof (cases "b = p")
    case True
    then show ?thesis using p by blast
  next
    case False
    then have "used (buf s b)" using that by (simp add: taken_simps)
    then show ?thesis using inv by (simp add: cache_inv_def)
  qed
  have A: "\<forall>i. head s i \<noteq> [] \<longrightarrow> 0 \<le> i \<and> i < 13" "\<forall>i. distinct (head s i)"
    using inv by (simp_all add: cache_inv_def)
  show ?thesis
    unfolding cache_inv_def taken_simps(1)
    using A E' F G by blast
qed


lemma cache_inv_moved:
  assumes inv: "cache_inv s" and lk: "lookup s bid d bn = None" and hb: "HASH (sint bn) = bid"
    and rg: "0 \<le> bid" "bid < 13" and ne: "j \<noteq> bid"
    and lf: "lru_first (buf s) (head s j) p"
  shows "cache_inv (moved d bn bid j p evs s)"
proof -
  let ?s' = "moved d bn bid j p evs s"
  have p: "p \<in> set (head s j)" using lf by (simp add: lru_first_def)
  have A: "\<forall>i. head s i \<noteq> [] \<longrightarrow> 0 \<le> i \<and> i < 13" and B: "\<forall>i. distinct (head s i)"
    and E: "\<forall>i. \<forall>b \<in> set (head s i). HASH (sint (blockno (buf s b))) = i"
    using inv by (simp_all add: cache_inv_def)
  have only: "i = j" if "p \<in> set (head s i)" for i
    using bucket_unique[OF inv that p] .
  have pb: "p \<notin> set (head s bid)" using only ne by blast
  text \<open>where the buffers of the new lists come from\<close>
  have src: "b = p \<and> i = bid \<or> b \<noteq> p \<and> b \<in> set (head s i)"
    if "b \<in> set (head ?s' i)" for i b
  proof -
    consider "i = bid" | "i \<noteq> bid" "i = j" | "i \<noteq> bid" "i \<noteq> j" by blast
    then show ?thesis
    proof cases
      case 1
      then show ?thesis using that pb by (auto simp: moved_simps)
    next
      case 2
      then have "b \<in> set (remove1 p (head s j))" using that by (simp add: moved_simps)
      then have "b \<in> set (head s j) \<and> b \<noteq> p" using B by (simp add: set_remove1_eq)
      then show ?thesis using 2 by simp
    next
      case 3
      then have "b \<in> set (head s i)" using that by (simp add: moved_simps)
      moreover have "b \<noteq> p" using only 3 calculation by blast
      ultimately show ?thesis by simp
    qed
  qed
  have dst: "b \<in> set (head ?s' i)" if "b \<in> set (head s i)" "b \<noteq> p" for i b
    using that B by (auto simp add: moved_simps set_remove1_eq)
  have A': "0 \<le> i \<and> i < 13" if "head ?s' i \<noteq> []" for i
  proof (cases "i = bid")
    case True
    then show ?thesis using rg by simp
  next
    case False
    then have "head s i \<noteq> []" using that by (auto simp: moved_simps split: if_splits)
    then show ?thesis using A by simp
  qed
  have B': "distinct (head ?s' i)" for i
    using B pb by (simp add: moved_simps)
  have E': "HASH (sint (blockno (buf ?s' b))) = i" if "b \<in> set (head ?s' i)" for i b
    using src[OF that] E hb by (auto simp: moved_simps)
  have F: "lookup ?s' i (dev (buf ?s' b)) (blockno (buf ?s' b)) = Some b"
    if b: "b \<in> set (head ?s' i)" and ub: "used (buf ?s' b)" for i b
  proof (cases "b = p")
    case True
    then have "i = bid" using src[OF b] by simp
    then show ?thesis using True by (simp add: lookup_def moved_simps)
  next
    case False
    then have bi: "b \<in> set (head s i)" using src[OF b] by simp
    have "used (buf s b)" using ub False by (simp add: moved_simps)
    then have old: "find (\<lambda>x. dev (buf s x) = dev (buf s b) \<and> blockno (buf s x) = blockno (buf s b))
                 (head s i) = Some b"
      using inv bi by (simp add: cache_inv_def lookup_def)
    have nk: "\<not> (dev (buf s b) = d \<and> blockno (buf s b) = bn)"
      by (rule other_key[OF inv lk hb bi])
    let ?Q = "\<lambda>x. dev (buf ?s' x) = dev (buf s b) \<and> blockno (buf ?s' x) = blockno (buf s b)"
    have q1: "\<forall>x. x \<noteq> p \<longrightarrow>
          ?Q x = (dev (buf s x) = dev (buf s b) \<and> blockno (buf s x) = blockno (buf s b))"
      by (simp add: moved_simps)
    have q2: "\<not> ?Q p" using nk by (auto simp add: moved_simps)
    have new: "find ?Q xs = Some b"
      if "find (\<lambda>x. dev (buf s x) = dev (buf s b) \<and> blockno (buf s x) = blockno (buf s b)) xs = Some b"
      for xs
      by (rule find_change[OF that False q1 q2])
    have "find ?Q (head ?s' i) = Some b"
    proof -
      consider "i = bid" | "i \<noteq> bid" "i = j" | "i \<noteq> bid" "i \<noteq> j" by blast
      then show ?thesis
      proof cases
        case 1
        then show ?thesis using new[OF old] q2 by (auto simp add: moved_simps)
      next
        case 2
        then show ?thesis using new[OF find_remove1[OF old False]] by (simp add: moved_simps)
      next
        case 3
        then show ?thesis using new[OF old] by (simp add: moved_simps)
      qed
    qed
    then show ?thesis using False by (simp add: lookup_def moved_simps)
  qed
  have G: "\<exists>i. b \<in> set (head ?s' i)" if "used (buf ?s' b)" for b
  proof (cases "b = p")
    case True
    then have "b \<in> set (head ?s' bid)" by (simp add: moved_simps)
    then show ?thesis by blast
  next
    case False
    then have "used (buf s b)" using that by (simp add: moved_simps)
    then obtain i where "b \<in> set (head s i)" using inv by (auto simp add: cache_inv_def)
    then have "b \<in> set (head ?s' i)" using False by (rule dst)
    then show ?thesis by blast
  qed
  show ?thesis
    unfolding cache_inv_def
    using A' B' E' F G by blast
qed


lemma cache_inv_bget_evict:
  assumes inv: "cache_inv s" and r: "bget_evict d bn (HASH (sint bn)) s = Inr (b, s')"
    and h: "0 \<le> HASH (sint bn)"
  shows "cache_inv s'"
proof -
  have rg: "0 \<le> HASH (sint bn)" "HASH (sint bn) < 13"
    using h HASH_less[of "sint bn"] by (simp_all add: NBUCKET_def)
  show ?thesis
  proof (cases rule: bget_evict_cases[OF r rg])
    case (1 evs)
    then show ?thesis using cache_inv_hit[OF inv] by simp
  next
    case (2 evs)
    then show ?thesis using cache_inv_taken[OF inv _ refl] by simp
  next
    case (3 evs m)
    have "(HASH (sint bn) + (1 + int m)) mod 13 \<noteq> HASH (sint bn)"
      using cyc_ne[OF rg, of "1 + int m"] 3(3) by simp
    then have ne: "(HASH (sint bn) + 1 + int m) mod 13 \<noteq> HASH (sint bn)"
      by (simp add: algebra_simps)
    show ?thesis
      using cache_inv_moved[OF inv 3(1) refl rg ne 3(5)] 3(6) by simp
  qed
qed

lemma cache_inv_bget_spin:
  assumes inv: "cache_inv s" and r: "bget_spin d bn s = Inr (b, s')"
  shows "cache_inv s'"
proof (cases rule: bget_spin_cases[OF r])
  case (1 evs)
  then show ?thesis using cache_inv_hit[OF inv] by simp
next
  case (2 evs)
  then show ?thesis using cache_inv_taken[OF inv _ refl] by simp
next
  case (3 evs m)
  have rg: "0 \<le> HASH (sint bn)" "HASH (sint bn) < 13"
    using 3(1) HASH_less[of "sint bn"] by (simp_all add: NBUCKET_def)
  have "(HASH (sint bn) + (1 + int m)) mod 13 \<noteq> HASH (sint bn)"
    using cyc_ne[OF rg, of "1 + int m"] 3(4) by simp
  then have ne: "(HASH (sint bn) + 1 + int m) mod 13 \<noteq> HASH (sint bn)"
    by (simp add: algebra_simps)
  show ?thesis
    using cache_inv_moved[OF inv 3(2) refl rg ne 3(6)] 3(7) by simp
qed

text \<open>What the steps of a holder change.\<close>

lemma acquiresleep_Inr:
  assumes "acquiresleep b s = Inr s'"
  shows "\<not> locked (buf s b)" "s' = s\<lparr>buf := (buf s)(b := (buf s b)\<lparr>locked := True\<rparr>)\<rparr>"
  using assms by (simp_all add: acquiresleep_def split: if_splits)

lemma bwrite_Inr:
  assumes "bwrite b s = Inr s'"
  shows "locked (buf s b)" "buf s' = buf s" "head s' = head s"
    "disk s' = (disk s)((dev (buf s b), blockno (buf s b)) := data (buf s b))"
    "iolog s' = iolog s @ [DiskWrite (dev (buf s b)) (blockno (buf s b))]"
  using assms by (auto simp add: bwrite_def holdingsleep_def virtio_disk_rw_def split: if_splits)

lemma brelse_eq:
  assumes "locked (buf s b)" "0 \<le> HASH (sint (blockno (buf s b)))"
  shows "brelse now b s =
     Inr (s\<lparr>buf := (buf s)(b := (buf s b)\<lparr>locked := False, refcnt := refcnt (buf s b) - 1,
                 mticks := (if refcnt (buf s b) - 1 = 0 then now else mticks (buf s b))\<rparr>),
             locklog := locklog s @
               (if refcnt (buf s b) - 1 = 0
                then [Acquire (Bucket (HASH (sint (blockno (buf s b))))), Acquire Tickslock,
                      Release Tickslock, Release (Bucket (HASH (sint (blockno (buf s b)))))]
                else [Acquire (Bucket (HASH (sint (blockno (buf s b))))),
                      Release (Bucket (HASH (sint (blockno (buf s b)))))])\<rparr>)"
  using assms HASH_less[of "sint (blockno (buf s b))"]
  by (simp add: brelse_def holdingsleep_def releasesleep_def Let_def acquire_def release_def)

lemma brelse_Inr:
  assumes "brelse now b s = Inr s'"
  shows "locked (buf s b)" "head s' = head s" "disk s' = disk s" "iolog s' = iolog s"
    "buf s' = (buf s)(b := (buf s b)\<lparr>locked := False, refcnt := refcnt (buf s b) - 1,
                 mticks := (if refcnt (buf s b) - 1 = 0 then now else mticks (buf s b))\<rparr>)"
proof -
  have l: "locked (buf s b)" using assms by (simp add: brelse_def holdingsleep_def split: if_splits)
  have g: "0 \<le> HASH (sint (blockno (buf s b)))"
    using assms l by (simp add: brelse_def holdingsleep_def releasesleep_def Let_def split: if_splits)
  note e = assms[unfolded brelse_eq[OF l g]]
  show "locked (buf s b)" by (rule l)
  show "head s' = head s" "disk s' = disk s" "iolog s' = iolog s"
    using e by auto
  show "buf s' = (buf s)(b := (buf s b)\<lparr>locked := False, refcnt := refcnt (buf s b) - 1,
                 mticks := (if refcnt (buf s b) - 1 = 0 then now else mticks (buf s b))\<rparr>)"
    using e by auto
qed

lemma bpin_Inr:
  assumes "bpin b s = Inr s'"
  shows "head s' = head s" "disk s' = disk s" "iolog s' = iolog s"
    "buf s' = (buf s)(b := (buf s b)\<lparr>refcnt := refcnt (buf s b) + 1\<rparr>)"
  using assms by (auto simp add: bpin_def Let_def acquire_def release_def split: if_splits)

lemma bunpin_Inr:
  assumes "bunpin b s = Inr s'"
  shows "head s' = head s" "disk s' = disk s" "iolog s' = iolog s"
    "buf s' = (buf s)(b := (buf s b)\<lparr>refcnt := refcnt (buf s b) - 1\<rparr>)"
  using assms by (auto simp add: bunpin_def Let_def acquire_def release_def split: if_splits)

lemma bread_fill_simps:
  "head (bread_fill b s) = head s" "disk (bread_fill b s) = disk s"
  "buf (bread_fill b s) =
     (if valid (buf s b) = 0
      then (buf s)(b := (buf s b)\<lparr>data := disk s (dev (buf s b), blockno (buf s b)), valid := 1\<rparr>)
      else buf s)"
  "iolog (bread_fill b s) =
     (if valid (buf s b) = 0 then iolog s @ [DiskRead (dev (buf s b)) (blockno (buf s b))]
      else iolog s)"
  by (simp_all add: bread_fill_def virtio_disk_rw_def Let_def)

lemma reachable_inv: "reachable s \<Longrightarrow> cache_inv s"
proof (induction rule: reachable.induct)
  case (init NBUF BSIZE dsk)
  show ?case by (rule cache_inv_init)
next
  case (spin s d bn b s')
  show ?case by (rule cache_inv_bget_spin[OF spin.IH spin.hyps(2)])
next
  case (evict s bn d b s')
  show ?case by (rule cache_inv_bget_evict[OF evict.IH evict.hyps(3,2)])
next
  case (sleep s b s')
  note e = acquiresleep_Inr[OF sleep.hyps(3)]
  show ?case
  proof (rule cache_inv_frame[OF sleep.IH])
    show "head s' = head s" by (simp add: e(2))
    show "\<forall>x. dev (buf s' x) = dev (buf s x) \<and> blockno (buf s' x) = blockno (buf s x)"
      by (simp add: e(2))
    show "\<forall>x. used (buf s' x) \<longrightarrow> used (buf s x)"
      using sleep.hyps(2) by (simp add: e(2) used_def)
  qed
next
  case (fill s b)
  have l: "locked (buf s b)" using fill.hyps(2) by (simp add: holdingsleep_def)
  show ?case
  proof (rule cache_inv_frame[OF fill.IH])
    show "head (bread_fill b s) = head s" by (simp add: bread_fill_simps)
    show "\<forall>x. dev (buf (bread_fill b s) x) = dev (buf s x) \<and>
              blockno (buf (bread_fill b s) x) = blockno (buf s x)"
      by (simp add: bread_fill_simps)
    show "\<forall>x. used (buf (bread_fill b s) x) \<longrightarrow> used (buf s x)"
      using l by (simp add: bread_fill_simps used_def)
  qed
next
  case (store s b c)
  have l: "locked (buf s b)" using store.hyps(2) by (simp add: holdingsleep_def)
  show ?case
  proof (rule cache_inv_frame[OF store.IH])
    show "head (store_data b c s) = head s" by (simp add: store_data_def)
    show "\<forall>x. dev (buf (store_data b c s) x) = dev (buf s x) \<and>
              blockno (buf (store_data b c s) x) = blockno (buf s x)"
      by (simp add: store_data_def)
    show "\<forall>x. used (buf (store_data b c s) x) \<longrightarrow> used (buf s x)"
      using l by (simp add: store_data_def used_def)
  qed
next
  case (commit s b s')
  note e = bwrite_Inr[OF commit.hyps(2)]
  show ?case
    by (rule cache_inv_frame[OF commit.IH]) (simp_all add: e)
next
  case (rel s now b s')
  note e = brelse_Inr[OF rel.hyps(2)]
  show ?case
  proof (rule cache_inv_frame[OF rel.IH])
    show "head s' = head s" by (rule e(2))
    show "\<forall>x. dev (buf s' x) = dev (buf s x) \<and> blockno (buf s' x) = blockno (buf s x)"
      by (simp add: e(5))
    show "\<forall>x. used (buf s' x) \<longrightarrow> used (buf s x)"
      using e(1) by (simp add: e(5) used_def)
  qed
next
  case (pin s b s')
  note e = bpin_Inr[OF pin.hyps(3)]
  have l: "locked (buf s b)" using pin.hyps(2) by (simp add: holdingsleep_def)
  show ?case
  proof (rule cache_inv_frame[OF pin.IH])
    show "head s' = head s" by (rule e(1))
    show "\<forall>x. dev (buf s' x) = dev (buf s x) \<and> blockno (buf s' x) = blockno (buf s x)"
      by (simp add: e(4))
    show "\<forall>x. used (buf s' x) \<longrightarrow> used (buf s x)"
      using l by (simp add: e(4) used_def)
  qed
next
  case (unpin s b s')
  note e = bunpin_Inr[OF unpin.hyps(3)]
  have l: "locked (buf s b)" using unpin.hyps(2) by (simp add: holdingsleep_def)
  show ?case
  proof (rule cache_inv_frame[OF unpin.IH])
    show "head s' = head s" by (rule e(1))
    show "\<forall>x. dev (buf s' x) = dev (buf s x) \<and> blockno (buf s' x) = blockno (buf s x)"
      by (simp add: e(4))
    show "\<forall>x. used (buf s' x) \<longrightarrow> used (buf s x)"
      using l by (simp add: e(4) used_def)
  qed
qed

lemma cache_inv_D:
  assumes "cache_inv s"
  shows "head s i \<noteq> [] \<Longrightarrow> 0 \<le> i \<and> i < 13"
    and "b \<in> set (head s i) \<Longrightarrow> HASH (sint (blockno (buf s b))) = i"
    and "b \<in> set (head s i) \<Longrightarrow> used (buf s b) \<Longrightarrow>
         lookup s i (dev (buf s b)) (blockno (buf s b)) = Some b"
    and "used (buf s b) \<Longrightarrow> \<exists>i. b \<in> set (head s i)"
proof -
  note a = assms[unfolded cache_inv_def]
  show "head s i \<noteq> [] \<Longrightarrow> 0 \<le> i \<and> i < 13"
    using a[THEN conjunct1] by (rule allE) (rule mp)
  show "b \<in> set (head s i) \<Longrightarrow> HASH (sint (blockno (buf s b))) = i"
    using a[THEN conjunct2, THEN conjunct2, THEN conjunct1, rule_format] .
  show "b \<in> set (head s i) \<Longrightarrow> used (buf s b) \<Longrightarrow>
         lookup s i (dev (buf s b)) (blockno (buf s b)) = Some b"
    using a[THEN conjunct2, THEN conjunct2, THEN conjunct2, THEN conjunct1, rule_format] .
  show "used (buf s b) \<Longrightarrow> \<exists>i. b \<in> set (head s i)"
    using a[THEN conjunct2, THEN conjunct2, THEN conjunct2, THEN conjunct2, rule_format] .
qed

lemma cache_inv_cached:
  assumes inv: "cache_inv s" and u: "used (buf s b)"
  shows "0 \<le> HASH (sint (blockno (buf s b)))"
    "HASH (sint (blockno (buf s b))) < 13"
    "lookup s (HASH (sint (blockno (buf s b)))) (dev (buf s b)) (blockno (buf s b)) = Some b"
proof -
  obtain i where i: "b \<in> set (head s i)" using cache_inv_D(4)[OF inv u] ..
  have h: "HASH (sint (blockno (buf s b))) = i" by (rule cache_inv_D(2)[OF inv i])
  have ne: "head s i \<noteq> []" using i by (cases "head s i") simp_all
  have r: "0 \<le> i \<and> i < 13" by (rule cache_inv_D(1)[OF inv ne])
  show "0 \<le> HASH (sint (blockno (buf s b)))" unfolding h using r ..
  show "HASH (sint (blockno (buf s b))) < 13" unfolding h using r ..
  show "lookup s (HASH (sint (blockno (buf s b)))) (dev (buf s b)) (blockno (buf s b)) = Some b"
    unfolding h by (rule cache_inv_D(3)[OF inv i u])
qed

lemma cache_inv_unique:
  assumes inv: "cache_inv s" and u: "used (buf s b)" "used (buf s b')"
    and k: "dev (buf s b) = dev (buf s b')" "blockno (buf s b) = blockno (buf s b')"
  shows "b = b'"
proof -
  have "Some b = lookup s (HASH (sint (blockno (buf s b)))) (dev (buf s b)) (blockno (buf s b))"
    by (rule cache_inv_cached(3)[OF inv u(1), symmetric])
  also have "\<dots> = lookup s (HASH (sint (blockno (buf s b')))) (dev (buf s b')) (blockno (buf s b'))"
    by (simp only: k)
  also have "\<dots> = Some b'" by (rule cache_inv_cached(3)[OF inv u(2)])
  finally show ?thesis by simp
qed

subsection \<open>No block is cached twice\<close>

text \<open>
  C1. In every reachable state of the cache no two buffers that are valid, counted or locked
  have the same device and block number. For such a buffer \<open>b\<close>, \<open>bget\<close> for its device and block
  number hands out \<open>b\<close> from the first scan of the bucket, and from the second scan under the
  eviction lock when the first scan has missed earlier: the state it leaves is \<open>hit b\<close>, where the
  count of \<open>b\<close> is one more (as a \<open>uint\<close>), no other buffer is changed and no buffer has moved.
  The whole \<open>bget\<close> returns \<open>b\<close> counted once more and locked when the sleep-lock of \<open>b\<close> is
  free, and when it is held the caller sleeps on it, counted on \<open>b\<close>.
\<close>

theorem bget_no_duplicates:
  assumes "reachable s"
  shows "(\<forall>b b'. used (buf s b) \<and> used (buf s b') \<and> dev (buf s b) = dev (buf s b') \<and>
                 blockno (buf s b) = blockno (buf s b') \<longrightarrow> b = b') \<and>
         (\<forall>b. used (buf s b) \<longrightarrow>
            bget_spin (dev (buf s b)) (blockno (buf s b)) s =
              Inr (b, hit b [Acquire (Bucket (HASH (sint (blockno (buf s b))))),
                             Release (Bucket (HASH (sint (blockno (buf s b)))))] s) \<and>
            bget_evict (dev (buf s b)) (blockno (buf s b)) (HASH (sint (blockno (buf s b)))) s =
              Inr (b, hit b [Acquire Block, Acquire (Bucket (HASH (sint (blockno (buf s b))))),
                             Release (Bucket (HASH (sint (blockno (buf s b))))), Release Block] s) \<and>
            (\<not> locked (buf s b) \<longrightarrow>
               (\<exists>s'. bget (dev (buf s b)) (blockno (buf s b)) s = Inr (b, s') \<and>
                     head s' = head s \<and>
                     buf s' = (buf s)(b := (buf s b)\<lparr>refcnt := refcnt (buf s b) + 1,
                                                     locked := True\<rparr>))) \<and>
            (locked (buf s b) \<longrightarrow>
               (\<exists>s'. bget (dev (buf s b)) (blockno (buf s b)) s = Inl (Sleeps b, s') \<and>
                     head s' = head s \<and>
                     buf s' = (buf s)(b := (buf s b)\<lparr>refcnt := refcnt (buf s b) + 1\<rparr>))))"
proof -
  have inv: "cache_inv s" using assms by (rule reachable_inv)
  have one: "\<forall>b b'. used (buf s b) \<and> used (buf s b') \<and> dev (buf s b) = dev (buf s b') \<and>
                 blockno (buf s b) = blockno (buf s b') \<longrightarrow> b = b'"
  proof (intro allI impI)
    fix b b'
    assume a: "used (buf s b) \<and> used (buf s b') \<and> dev (buf s b) = dev (buf s b') \<and>
               blockno (buf s b) = blockno (buf s b')"
    show "b = b'"
      by (rule cache_inv_unique[OF inv]) (simp_all add: a)
  qed
  have two: "\<forall>b. used (buf s b) \<longrightarrow>
            bget_spin (dev (buf s b)) (blockno (buf s b)) s =
              Inr (b, hit b [Acquire (Bucket (HASH (sint (blockno (buf s b))))),
                             Release (Bucket (HASH (sint (blockno (buf s b)))))] s) \<and>
            bget_evict (dev (buf s b)) (blockno (buf s b)) (HASH (sint (blockno (buf s b)))) s =
              Inr (b, hit b [Acquire Block, Acquire (Bucket (HASH (sint (blockno (buf s b))))),
                             Release (Bucket (HASH (sint (blockno (buf s b))))), Release Block] s) \<and>
            (\<not> locked (buf s b) \<longrightarrow>
               (\<exists>s'. bget (dev (buf s b)) (blockno (buf s b)) s = Inr (b, s') \<and>
                     head s' = head s \<and>
                     buf s' = (buf s)(b := (buf s b)\<lparr>refcnt := refcnt (buf s b) + 1,
                                                     locked := True\<rparr>))) \<and>
            (locked (buf s b) \<longrightarrow>
               (\<exists>s'. bget (dev (buf s b)) (blockno (buf s b)) s = Inl (Sleeps b, s') \<and>
                     head s' = head s \<and>
                     buf s' = (buf s)(b := (buf s b)\<lparr>refcnt := refcnt (buf s b) + 1\<rparr>)))"
  proof (intro allI impI conjI)
    fix b
    assume u: "used (buf s b)"
    note c = cache_inv_cached[OF inv u]
    show sp: "bget_spin (dev (buf s b)) (blockno (buf s b)) s =
              Inr (b, hit b [Acquire (Bucket (HASH (sint (blockno (buf s b))))),
                             Release (Bucket (HASH (sint (blockno (buf s b)))))] s)"
      by (rule bget_spin_hit[OF c(1) c(3)])
    show "bget_evict (dev (buf s b)) (blockno (buf s b)) (HASH (sint (blockno (buf s b)))) s =
              Inr (b, hit b [Acquire Block, Acquire (Bucket (HASH (sint (blockno (buf s b))))),
                             Release (Bucket (HASH (sint (blockno (buf s b))))), Release Block] s)"
      by (rule bget_evict_hit[OF c(3)])
    {
      assume l: "\<not> locked (buf s b)"
      show "\<exists>s'. bget (dev (buf s b)) (blockno (buf s b)) s = Inr (b, s') \<and>
                     head s' = head s \<and>
                     buf s' = (buf s)(b := (buf s b)\<lparr>refcnt := refcnt (buf s b) + 1,
                                                     locked := True\<rparr>)"
        using l unfolding bget_def sp by (simp add: acquiresleep_def hit_def)
    }
    {
      assume l: "locked (buf s b)"
      show "\<exists>s'. bget (dev (buf s b)) (blockno (buf s b)) s = Inl (Sleeps b, s') \<and>
                     head s' = head s \<and>
                     buf s' = (buf s)(b := (buf s b)\<lparr>refcnt := refcnt (buf s b) + 1\<rparr>)"
        using l unfolding bget_def sp by (simp add: acquiresleep_def hit_def)
    }
  qed
  show ?thesis using one two by (rule conjI)
qed

theorem bget_no_duplicates_witness:
  "reachable fetched2 \<and> used (buf fetched2 1) \<and>
   dev (buf fetched2 1) = 1 \<and> blockno (buf fetched2 1) = 1 \<and> refcnt (buf fetched2 1) = 1 \<and>
   valid (buf fetched2 1) = 0 \<and>
   result_buf (bget_spin 1 1 fetched2) = Some 1 \<and>
   field_after refcnt 1 (bget_spin 1 1 fetched2) = Some 2 \<and>
   field_after blockno 0 (bget_spin 1 1 fetched2) = Some (blockno (buf fetched2 0)) \<and>
   result_buf (bget_evict 1 1 1 fetched2) = Some 1 \<and>
   field_after refcnt 1 (bget_evict 1 1 1 fetched2) = Some 2 \<and>
   result_buf (bget 1 1 fetched2) = Some 1 \<and>
   field_after refcnt 1 (bget 1 1 fetched2) = Some 2"
proof -
  have a: "result_buf (bget_spin 1 1 cache2) = Some 1" by code_simp
  obtain s1 where s1: "bget_spin 1 1 cache2 = Inr (1, s1)"
    using a by (auto simp: result_buf_def split: sum.splits)
  have f: "fetched2 = s1" by (simp add: fetched2_def s1)
  have "reachable cache2" unfolding cache2_def by (rule reachable.init)
  then have r: "reachable fetched2" unfolding f using s1 by (rule reachable.spin)
  have k: "dev (buf fetched2 1) = 1" "blockno (buf fetched2 1) = 1" "refcnt (buf fetched2 1) = 1"
    "\<not> locked (buf fetched2 1)" "HASH (sint (1 :: u32)) = 1" "valid (buf fetched2 1) = 0"
    by code_simp+
  have u: "used (buf fetched2 1)" using k(3) by (simp add: used_def)
  note t = bget_no_duplicates[OF r, THEN conjunct2, rule_format, OF u, unfolded k]
  obtain s' where s': "bget 1 1 fetched2 = Inr (1, s')"
    "buf s' = (buf fetched2)(1 := (buf fetched2 1)\<lparr>refcnt := 1 + 1, locked := True\<rparr>)"
    using t[THEN conjunct2, THEN conjunct2, THEN conjunct1] k(4) by blast
  show ?thesis
    using r u k(1-3,6) t[THEN conjunct1] t[THEN conjunct2, THEN conjunct1] s'
    by (simp add: result_buf_def field_after_def hit_def)
qed

subsection \<open>A block written to the device and read back\<close>

lemma bget_spin_Inr:
  assumes "bget_spin d bn s = Inr (r, s1)"
  shows "dev (buf s1 r) = d" "blockno (buf s1 r) = bn"
    "\<forall>x. x \<noteq> r \<longrightarrow> buf s1 x = buf s x"
    "disk s1 = disk s" "iolog s1 = iolog s" "locked (buf s1 r) = locked (buf s r)"
    "(lookup s (HASH (sint bn)) d bn = Some r \<and> valid (buf s1 r) = valid (buf s r) \<and>
      data (buf s1 r) = data (buf s r)) \<or>
     (lookup s (HASH (sint bn)) d bn = None \<and> valid (buf s1 r) = 0)"
proof -
  have "dev (buf s1 r) = d \<and> blockno (buf s1 r) = bn \<and>
    (\<forall>x. x \<noteq> r \<longrightarrow> buf s1 x = buf s x) \<and>
    disk s1 = disk s \<and> iolog s1 = iolog s \<and> locked (buf s1 r) = locked (buf s r) \<and>
    ((lookup s (HASH (sint bn)) d bn = Some r \<and> valid (buf s1 r) = valid (buf s r) \<and>
      data (buf s1 r) = data (buf s r)) \<or>
     (lookup s (HASH (sint bn)) d bn = None \<and> valid (buf s1 r) = 0))"
  proof (cases rule: bget_spin_cases[OF assms])
    case (1 evs)
    have "dev (buf s r) = d" "blockno (buf s r) = bn"
      using lookup_Some[OF 1(2)] by simp_all
    then show ?thesis using 1(2) by (simp add: 1(3) hit_simps)
  next
    case (2 evs)
    then show ?thesis by (simp add: taken_simps)
  next
    case (3 evs m)
    then show ?thesis by (simp add: moved_simps)
  qed
  then show "dev (buf s1 r) = d" "blockno (buf s1 r) = bn"
    "\<forall>x. x \<noteq> r \<longrightarrow> buf s1 x = buf s x"
    "disk s1 = disk s" "iolog s1 = iolog s" "locked (buf s1 r) = locked (buf s r)"
    "(lookup s (HASH (sint bn)) d bn = Some r \<and> valid (buf s1 r) = valid (buf s r) \<and>
      data (buf s1 r) = data (buf s r)) \<or>
     (lookup s (HASH (sint bn)) d bn = None \<and> valid (buf s1 r) = 0)"
    by simp_all
qed

lemma bread_Inr:
  assumes "bread d bn s = Inr (r, s')"
  shows "dev (buf s' r) = d" "blockno (buf s' r) = bn" "locked (buf s' r)"
    "\<not> locked (buf s r)"
    "\<forall>x. x \<noteq> r \<longrightarrow> buf s' x = buf s x" "disk s' = disk s"
    "lookup s (HASH (sint bn)) d bn = Some r \<and> valid (buf s r) \<noteq> 0 \<and>
       iolog s' = iolog s \<and> data (buf s' r) = data (buf s r) \<and> valid (buf s' r) = valid (buf s r) \<or>
     (lookup s (HASH (sint bn)) d bn = None \<or> valid (buf s r) = 0) \<and>
       iolog s' = iolog s @ [DiskRead d bn] \<and> data (buf s' r) = disk s (d, bn) \<and>
       valid (buf s' r) = 1"
proof -
  obtain s2 where s2: "bget d bn s = Inr (r, s2)" "s' = bread_fill r s2"
    using assms by (auto simp: bread_def split: sum.splits)
  obtain s1 where s1: "bget_spin d bn s = Inr (r, s1)" "\<not> locked (buf s1 r)"
    "s2 = s1\<lparr>buf := (buf s1)(r := (buf s1 r)\<lparr>locked := True\<rparr>)\<rparr>"
    using s2(1) by (rule bget_Inr)
  note p = bget_spin_Inr[OF s1(1)]
  have k: "dev (buf s2 r) = d" "blockno (buf s2 r) = bn" "locked (buf s2 r)"
    "valid (buf s2 r) = valid (buf s1 r)" "data (buf s2 r) = data (buf s1 r)"
    "\<forall>x. x \<noteq> r \<longrightarrow> buf s2 x = buf s x" "disk s2 = disk s" "iolog s2 = iolog s"
    using p(1-5) by (simp_all add: s1(3))
  show "dev (buf s' r) = d" "blockno (buf s' r) = bn" "locked (buf s' r)"
    using k(1-3) by (simp_all add: s2(2) bread_fill_simps)
  show "\<not> locked (buf s r)" using s1(2) p(6) by simp
  show "\<forall>x. x \<noteq> r \<longrightarrow> buf s' x = buf s x" using k(6) by (simp add: s2(2) bread_fill_simps)
  show "disk s' = disk s" using k(7) by (simp add: s2(2) bread_fill_simps)
  show "lookup s (HASH (sint bn)) d bn = Some r \<and> valid (buf s r) \<noteq> 0 \<and>
       iolog s' = iolog s \<and> data (buf s' r) = data (buf s r) \<and> valid (buf s' r) = valid (buf s r) \<or>
     (lookup s (HASH (sint bn)) d bn = None \<or> valid (buf s r) = 0) \<and>
       iolog s' = iolog s @ [DiskRead d bn] \<and> data (buf s' r) = disk s (d, bn) \<and>
       valid (buf s' r) = 1"
  proof (cases "valid (buf s1 r) = 0")
    case True
    have "lookup s (HASH (sint bn)) d bn = None \<or> valid (buf s r) = 0"
      using p(7) True by auto
    moreover have "iolog s' = iolog s @ [DiskRead d bn]" "data (buf s' r) = disk s (d, bn)"
      "valid (buf s' r) = 1"
      using True k by (simp_all add: s2(2) bread_fill_simps)
    ultimately show ?thesis by simp
  next
    case False
    then have "lookup s (HASH (sint bn)) d bn = Some r" "valid (buf s1 r) = valid (buf s r)"
      "data (buf s1 r) = data (buf s r)"
      using p(7) by auto
    moreover have "iolog s' = iolog s" "data (buf s' r) = data (buf s1 r)"
      "valid (buf s' r) = valid (buf s1 r)"
      using False k by (simp_all add: s2(2) bread_fill_simps)
    ultimately show ?thesis using False by simp
  qed
qed

lemma bread_Inl:
  assumes "bread d bn s = Inl (e, s')"
  shows "disk s' = disk s \<and> iolog s' = iolog s"
proof -
  have g: "bget d bn s = Inl (e, s')"
    using assms by (auto simp: bread_def split: sum.splits)
  from bget_Inl[OF g] show ?thesis
  proof
    assume "bget_spin d bn s = Inl (e, s')"
    from bget_spin_Inl[OF this] show ?thesis by simp
  next
    assume "\<exists>r. e = Sleeps r \<and> bget_spin d bn s = Inr (r, s') \<and> locked (buf s' r)"
    then obtain r where "bget_spin d bn s = Inr (r, s')" by blast
    from bget_spin_Inr(4,5)[OF this] show ?thesis by simp
  qed
qed

lemma bread_fresh:
  assumes "\<forall>x. dev (buf s x) = d \<and> blockno (buf s x) = bn \<longrightarrow> valid (buf s x) = 0"
    and "bread d bn s = Inr (r, s')"
  shows "dev (buf s' r) = d \<and> blockno (buf s' r) = bn \<and> valid (buf s' r) = 1 \<and>
         locked (buf s' r) \<and> data (buf s' r) = disk s (d, bn) \<and>
         iolog s' = iolog s @ [DiskRead d bn] \<and> disk s' = disk s"
proof -
  note p = bread_Inr[OF assms(2)]
  from p(7) have "lookup s (HASH (sint bn)) d bn = None \<or> valid (buf s r) = 0"
  proof
    assume a: "lookup s (HASH (sint bn)) d bn = Some r \<and> valid (buf s r) \<noteq> 0 \<and>
       iolog s' = iolog s \<and> data (buf s' r) = data (buf s r) \<and> valid (buf s' r) = valid (buf s r)"
    then have "lookup s (HASH (sint bn)) d bn = Some r" by simp
    from lookup_Some[OF this] have "dev (buf s r) = d \<and> blockno (buf s r) = bn" by simp
    then have "valid (buf s r) = 0" using assms(1) by blast
    then show ?thesis using a by simp
  next
    assume "(lookup s (HASH (sint bn)) d bn = None \<or> valid (buf s r) = 0) \<and>
       iolog s' = iolog s @ [DiskRead d bn] \<and> data (buf s' r) = disk s (d, bn) \<and>
       valid (buf s' r) = 1"
    then show ?thesis by simp
  qed
  then have "iolog s' = iolog s @ [DiskRead d bn]" "data (buf s' r) = disk s (d, bn)"
    "valid (buf s' r) = 1"
    using p(7) by auto
  then show ?thesis using p(1,2,3,6) by simp
qed

text \<open>
  C8. In a reachable state a caller that holds the sleep-lock of the buffer \<open>b\<close>, which caches
  the block \<open>(d, bn)\<close>, puts the contents \<open>c\<close> in the buffer, writes it with \<open>bwrite\<close> and
  releases it: both calls return, and \<open>bwrite\<close> makes exactly one write to the device, of \<open>c\<close>
  to the block \<open>(d, bn)\<close>. If then a \<open>bread\<close> of another block returns the same buffer \<open>b\<close>,
  the buffer has been taken for that block, after one read of that block from the device. After
  this, with the buffer still held for the other block or released again, a \<open>bread\<close> of
  \<open>(d, bn)\<close> that returns returns a buffer, locked and valid, with the key \<open>(d, bn)\<close> and the
  data \<open>c\<close>, and has made exactly one read from the device, of the block \<open>(d, bn)\<close>, the
  device being unchanged; a \<open>bread\<close> that does not return (no buffer is free, or the caller
  sleeps) has read nothing.
\<close>

theorem bread_round_trip:
  assumes "reachable s" and "holdingsleep b s"
  shows "\<exists>s2 s3.
           bwrite b (store_data b c s) = Inr s2 \<and> brelse now b s2 = Inr s3 \<and>
           disk s2 = (disk s)((dev (buf s b), blockno (buf s b)) := c) \<and>
           iolog s2 = iolog s @ [DiskWrite (dev (buf s b)) (blockno (buf s b))] \<and>
           disk s3 = disk s2 \<and> iolog s3 = iolog s2 \<and>
           (\<forall>d' bn' s4.
              bread d' bn' s3 = Inr (b, s4) \<and> (d', bn') \<noteq> (dev (buf s b), blockno (buf s b)) \<longrightarrow>
              dev (buf s4 b) = d' \<and> blockno (buf s4 b) = bn' \<and>
              iolog s4 = iolog s3 @ [DiskRead d' bn'] \<and> disk s4 = disk s3 \<and>
              (\<forall>s5. s5 = s4 \<or> (\<exists>now'. brelse now' b s4 = Inr s5) \<longrightarrow>
                 iolog s5 = iolog s4 \<and> disk s5 = disk s4 \<and>
                 (\<forall>b' s6.
                    bread (dev (buf s b)) (blockno (buf s b)) s5 = Inr (b', s6) \<longrightarrow>
                    dev (buf s6 b') = dev (buf s b) \<and> blockno (buf s6 b') = blockno (buf s b) \<and>
                    valid (buf s6 b') = 1 \<and> locked (buf s6 b') \<and> data (buf s6 b') = c \<and>
                    iolog s6 = iolog s5 @ [DiskRead (dev (buf s b)) (blockno (buf s b))] \<and>
                    disk s6 = disk s5) \<and>
                 (\<forall>e s6.
                    bread (dev (buf s b)) (blockno (buf s b)) s5 = Inl (e, s6) \<longrightarrow>
                    iolog s6 = iolog s5 \<and> disk s6 = disk s5)))"
proof -
  let ?d = "dev (buf s b)" and ?bn = "blockno (buf s b)"
  let ?s1 = "store_data b c s"
  have inv: "cache_inv s" using assms(1) by (rule reachable_inv)
  have l: "locked (buf s b)" using assms(2) by (simp add: holdingsleep_def)
  have u: "used (buf s b)" using l by (simp add: used_def)
  have hs: "0 \<le> HASH (sint ?bn)" by (rule cache_inv_cached(1)[OF inv u])
  define s2 where "s2 = virtio_disk_rw b True ?s1"
  have w: "bwrite b ?s1 = Inr s2"
    using l by (simp add: bwrite_def holdingsleep_def store_data_def s2_def)
  note w' = bwrite_Inr[OF w]
  have b2: "buf s2 = (buf s)(b := (buf s b)\<lparr>data := c\<rparr>)"
    using w'(2) by (simp add: store_data_def)
  have d2: "disk s2 = (disk s)((?d, ?bn) := c)"
    using w'(4) by (simp add: store_data_def)
  have i2: "iolog s2 = iolog s @ [DiskWrite ?d ?bn]"
    using w'(5) by (simp add: store_data_def)
  have l2: "locked (buf s2 b)" "0 \<le> HASH (sint (blockno (buf s2 b)))"
    using l hs by (simp_all add: b2)
  obtain s3 where r: "brelse now b s2 = Inr s3"
    using brelse_eq[OF l2, of now] by simp
  note r' = brelse_Inr[OF r]
  have k3: "\<forall>x. x \<noteq> b \<longrightarrow> buf s3 x = buf s x" "dev (buf s3 b) = ?d" "blockno (buf s3 b) = ?bn"
    by (simp_all add: r'(5) b2)
  have E: "dev (buf s4 b) = d' \<and> blockno (buf s4 b) = bn' \<and>
              iolog s4 = iolog s3 @ [DiskRead d' bn'] \<and> disk s4 = disk s3 \<and>
              (\<forall>s5. s5 = s4 \<or> (\<exists>now'. brelse now' b s4 = Inr s5) \<longrightarrow>
                 iolog s5 = iolog s4 \<and> disk s5 = disk s4 \<and>
                 (\<forall>b' s6.
                    bread ?d ?bn s5 = Inr (b', s6) \<longrightarrow>
                    dev (buf s6 b') = ?d \<and> blockno (buf s6 b') = ?bn \<and>
                    valid (buf s6 b') = 1 \<and> locked (buf s6 b') \<and> data (buf s6 b') = c \<and>
                    iolog s6 = iolog s5 @ [DiskRead ?d ?bn] \<and>
                    disk s6 = disk s5) \<and>
                 (\<forall>e s6.
                    bread ?d ?bn s5 = Inl (e, s6) \<longrightarrow>
                    iolog s6 = iolog s5 \<and> disk s6 = disk s5))"
    if h: "bread d' bn' s3 = Inr (b, s4) \<and> (d', bn') \<noteq> (?d, ?bn)" for d' bn' s4
  proof -
    have e: "bread d' bn' s3 = Inr (b, s4)" and ne: "(d', bn') \<noteq> (?d, ?bn)"
      using h by simp_all
    note q = bread_Inr[OF e]
    have nohit: "lookup s3 (HASH (sint bn')) d' bn' \<noteq> Some b"
    proof
      assume "lookup s3 (HASH (sint bn')) d' bn' = Some b"
      from lookup_Some[OF this] show False using ne k3(2,3) by simp
    qed
    have i4: "iolog s4 = iolog s3 @ [DiskRead d' bn']"
      using q(7) nohit by auto
    have k4: "\<forall>x. x \<noteq> b \<longrightarrow> buf s4 x = buf s x"
      using q(5) k3(1) by simp
    have d4: "disk s4 (?d, ?bn) = c"
      by (simp add: q(6) r'(3) d2)
    have P4: "\<forall>x. dev (buf s4 x) = ?d \<and> blockno (buf s4 x) = ?bn \<longrightarrow> valid (buf s4 x) = 0"
    proof (intro allI impI)
      fix x
      assume kx: "dev (buf s4 x) = ?d \<and> blockno (buf s4 x) = ?bn"
      have nb: "x \<noteq> b" using kx q(1,2) ne by auto
      then have same: "buf s4 x = buf s x" using k4 by simp
      show "valid (buf s4 x) = 0"
      proof (rule ccontr)
        assume "valid (buf s4 x) \<noteq> 0"
        then have "used (buf s x)" using same by (simp add: used_def)
        moreover have "dev (buf s x) = ?d" "blockno (buf s x) = ?bn" using kx same by simp_all
        ultimately have "x = b" using cache_inv_unique[OF inv _ u, of x] by simp
        then show False using nb by simp
      qed
    qed
    have F: "iolog s5 = iolog s4 \<and> disk s5 = disk s4 \<and>
                 (\<forall>b' s6.
                    bread ?d ?bn s5 = Inr (b', s6) \<longrightarrow>
                    dev (buf s6 b') = ?d \<and> blockno (buf s6 b') = ?bn \<and>
                    valid (buf s6 b') = 1 \<and> locked (buf s6 b') \<and> data (buf s6 b') = c \<and>
                    iolog s6 = iolog s5 @ [DiskRead ?d ?bn] \<and>
                    disk s6 = disk s5) \<and>
                 (\<forall>e s6.
                    bread ?d ?bn s5 = Inl (e, s6) \<longrightarrow>
                    iolog s6 = iolog s5 \<and> disk s6 = disk s5)"
      if g: "s5 = s4 \<or> (\<exists>now'. brelse now' b s4 = Inr s5)" for s5
    proof -
      have m: "iolog s5 = iolog s4 \<and> disk s5 = disk s4 \<and>
               (\<forall>x. dev (buf s5 x) = dev (buf s4 x) \<and> blockno (buf s5 x) = blockno (buf s4 x) \<and>
                    valid (buf s5 x) = valid (buf s4 x))"
        using g
      proof
        assume "s5 = s4"
        then show ?thesis by simp
      next
        assume "\<exists>now'. brelse now' b s4 = Inr s5"
        then obtain now' where "brelse now' b s4 = Inr s5" by blast
        from brelse_Inr[OF this] show ?thesis by simp
      qed
      have P5: "\<forall>x. dev (buf s5 x) = ?d \<and> blockno (buf s5 x) = ?bn \<longrightarrow> valid (buf s5 x) = 0"
        using P4 m by simp
      have d5: "disk s5 (?d, ?bn) = c" using d4 m by simp
      have R: "dev (buf s6 b') = ?d \<and> blockno (buf s6 b') = ?bn \<and>
                    valid (buf s6 b') = 1 \<and> locked (buf s6 b') \<and> data (buf s6 b') = c \<and>
                    iolog s6 = iolog s5 @ [DiskRead ?d ?bn] \<and>
                    disk s6 = disk s5"
        if "bread ?d ?bn s5 = Inr (b', s6)" for b' s6
        using bread_fresh[OF P5 that] d5 by simp
      have N: "iolog s6 = iolog s5 \<and> disk s6 = disk s5"
        if "bread ?d ?bn s5 = Inl (e, s6)" for e s6
        using bread_Inl[OF that] by simp
      show ?thesis using m R N by blast
    qed
    show ?thesis
      apply (intro conjI)
          apply (rule q(1))
         apply (rule q(2))
        apply (rule i4)
       apply (rule q(6))
      apply (intro allI impI)
      apply (rule F)
      apply assumption
      done
  qed
  show ?thesis
    apply (rule exI[of _ s2], rule exI[of _ s3])
    apply (intro conjI)
          apply (rule w)
         apply (rule r)
        apply (rule d2)
       apply (rule i2)
      apply (rule r'(3))
     apply (rule r'(4))
    apply (intro allI impI)
    apply (rule E)
    apply assumption
    done
qed

theorem bread_round_trip_witness:
  "reachable held2 \<and> holdingsleep 1 held2 \<and>
   dev (buf held2 1) = 1 \<and> blockno (buf held2 1) = 1 \<and> data (buf held2 1) = [1, 2, 3, 4] \<and>
   iolog held2 = [DiskRead 1 1] \<and>
   (\<exists>s2 s3 s4 s5 s6 s7.
      bwrite 1 (store_data 1 [9, 9, 9, 9] held2) = Inr s2 \<and> brelse 5 1 s2 = Inr s3 \<and>
      bread 1 14 s3 = Inr (1, s4) \<and> blockno (buf s4 1) = 14 \<and>
      bread 1 1 s4 = Inr (0, s6) \<and>
      dev (buf s6 0) = 1 \<and> blockno (buf s6 0) = 1 \<and> valid (buf s6 0) = 1 \<and>
      data (buf s6 0) = [9, 9, 9, 9] \<and> disk s6 (1, 1) = [9, 9, 9, 9] \<and>
      iolog s6 = [DiskRead 1 1, DiskWrite 1 1, DiskRead 1 14, DiskRead 1 1] \<and>
      brelse 7 1 s4 = Inr s5 \<and> bread 1 1 s5 = Inr (1, s7) \<and>
      dev (buf s7 1) = 1 \<and> blockno (buf s7 1) = 1 \<and> valid (buf s7 1) = 1 \<and>
      data (buf s7 1) = [9, 9, 9, 9] \<and>
      iolog s7 = [DiskRead 1 1, DiskWrite 1 1, DiskRead 1 14, DiskRead 1 1])"
proof -
  have a: "result_buf (bget_spin 1 1 cache2) = Some 1"
    "field_after refcnt 1 (bget_spin 1 1 cache2) = Some 1"
    "field_after locked 1 (bget_spin 1 1 cache2) = Some False"
    by code_simp+
  obtain s1 where s1: "bget_spin 1 1 cache2 = Inr (1, s1)"
    using a(1) by (auto simp: result_buf_def split: sum.splits)
  have f1: "refcnt (buf s1 1) \<noteq> 0" "\<not> locked (buf s1 1)"
    using a(2,3) by (simp_all add: s1 field_after_def)
  let ?s1' = "s1\<lparr>buf := (buf s1)(1 := (buf s1 1)\<lparr>locked := True\<rparr>)\<rparr>"
  have sl: "acquiresleep 1 s1 = Inr ?s1'" using f1(2) by (simp add: acquiresleep_def)
  have "reachable cache2" unfolding cache2_def by (rule reachable.init)
  then have "reachable s1" using s1 by (rule reachable.spin)
  then have "reachable ?s1'" using f1(1) sl by (rule reachable.sleep)
  moreover have hs1: "holdingsleep 1 ?s1'" by (simp add: holdingsleep_def)
  ultimately have "reachable (bread_fill 1 ?s1')" by (rule reachable.fill)
  moreover have h2: "held2 = bread_fill 1 ?s1'"
    using s1 sl by (simp add: held2_def after_def bread_def bget_def)
  ultimately have r: "reachable held2" by simp
  have k: "holdingsleep 1 held2" "dev (buf held2 1) = 1" "blockno (buf held2 1) = 1"
    "data (buf held2 1) = [1, 2, 3, 4]" "iolog held2 = [DiskRead 1 1]"
    by code_simp+
  obtain s2 s3 where t: "bwrite 1 (store_data 1 [9, 9, 9, 9] held2) = Inr s2"
    "brelse 5 1 s2 = Inr s3"
    "disk s2 = (disk held2)((dev (buf held2 1), blockno (buf held2 1)) := [9, 9, 9, 9])"
    "iolog s2 = iolog held2 @ [DiskWrite (dev (buf held2 1)) (blockno (buf held2 1))]"
    "disk s3 = disk s2" "iolog s3 = iolog s2"
    and ev: "\<forall>d' bn' s4.
              bread d' bn' s3 = Inr (1, s4) \<and>
              (d', bn') \<noteq> (dev (buf held2 1), blockno (buf held2 1)) \<longrightarrow>
              dev (buf s4 1) = d' \<and> blockno (buf s4 1) = bn' \<and>
              iolog s4 = iolog s3 @ [DiskRead d' bn'] \<and> disk s4 = disk s3 \<and>
              (\<forall>s5. s5 = s4 \<or> (\<exists>now'. brelse now' 1 s4 = Inr s5) \<longrightarrow>
                 iolog s5 = iolog s4 \<and> disk s5 = disk s4 \<and>
                 (\<forall>b' s6.
                    bread (dev (buf held2 1)) (blockno (buf held2 1)) s5 = Inr (b', s6) \<longrightarrow>
                    dev (buf s6 b') = dev (buf held2 1) \<and>
                    blockno (buf s6 b') = blockno (buf held2 1) \<and>
                    valid (buf s6 b') = 1 \<and> locked (buf s6 b') \<and> data (buf s6 b') = [9, 9, 9, 9] \<and>
                    iolog s6 = iolog s5 @ [DiskRead (dev (buf held2 1)) (blockno (buf held2 1))] \<and>
                    disk s6 = disk s5) \<and>
                 (\<forall>e s6.
                    bread (dev (buf held2 1)) (blockno (buf held2 1)) s5 = Inl (e, s6) \<longrightarrow>
                    iolog s6 = iolog s5 \<and> disk s6 = disk s5))"
    using bread_round_trip[OF r k(1), of "[9, 9, 9, 9]" 5] by blast
  have c3: "committed2 = s3"
    using t(1,2) by (simp add: committed2_def after_def)
  have b: "result_buf (bread 1 14 committed2) = Some 1" by code_simp
  obtain s4 where s4: "bread 1 14 s3 = Inr (1, s4)"
    using b unfolding c3 by (auto simp: result_buf_def split: sum.splits)
  have c4: "evicted2 = s4"
    using s4 by (simp add: evicted2_def after_def c3)
  have c: "result_buf (bread 1 1 evicted2) = Some 0"
    "result_buf (bread 1 1 (after [Brelse 7 1] evicted2)) = Some 1"
    "case brelse 7 1 evicted2 of Inl _ \<Rightarrow> False | Inr _ \<Rightarrow> True"
    by code_simp+
  obtain s6 where s6: "bread 1 1 s4 = Inr (0, s6)"
    using c(1) unfolding c4 by (auto simp: result_buf_def split: sum.splits)
  obtain s5 where s5: "brelse 7 1 s4 = Inr s5"
    using c(3) unfolding c4 by (auto split: sum.splits)
  have c5: "after [Brelse 7 1] evicted2 = s5"
    using s5 by (simp add: after_def c4)
  obtain s7 where s7: "bread 1 1 s5 = Inr (1, s7)"
    using c(2) unfolding c5 by (auto simp: result_buf_def split: sum.splits)
  have ne: "((1::u32), (14::u32)) \<noteq> (dev (buf held2 1), blockno (buf held2 1))"
    using k(2,3) by simp
  note e4 = ev[rule_format, OF conjI[OF s4 ne]]
  have g4: "blockno (buf s4 1) = 14" "iolog s4 = iolog s3 @ [DiskRead 1 14]" "disk s4 = disk s3"
    using e4[THEN conjunct2, THEN conjunct1]
      e4[THEN conjunct2, THEN conjunct2, THEN conjunct1]
      e4[THEN conjunct2, THEN conjunct2, THEN conjunct2, THEN conjunct1]
    by blast+
  note e5 = e4[THEN conjunct2, THEN conjunct2, THEN conjunct2, THEN conjunct2, rule_format]
  have s6': "bread (dev (buf held2 1)) (blockno (buf held2 1)) s4 = Inr (0, s6)"
    using s6 k(2,3) by simp
  have s7': "bread (dev (buf held2 1)) (blockno (buf held2 1)) s5 = Inr (1, s7)"
    using s7 k(2,3) by simp
  have x4: "s4 = s4 \<or> (\<exists>now'. brelse now' 1 s4 = Inr s4)" by simp
  have x5: "s5 = s4 \<or> (\<exists>now'. brelse now' 1 s4 = Inr s5)" using s5 by blast
  note e6 = e5[OF x4, THEN conjunct2, THEN conjunct2, THEN conjunct1, rule_format, OF s6']
  note e7 = e5[OF x5, THEN conjunct2, THEN conjunct2, THEN conjunct1, rule_format, OF s7']
  have g5: "iolog s5 = iolog s4" "disk s5 = disk s4"
    using e5[OF x5] by blast+
  have g6: "dev (buf s6 0) = dev (buf held2 1)" "blockno (buf s6 0) = blockno (buf held2 1)"
    "valid (buf s6 0) = 1" "data (buf s6 0) = [9, 9, 9, 9]"
    "iolog s6 = iolog s4 @ [DiskRead (dev (buf held2 1)) (blockno (buf held2 1))]"
    "disk s6 = disk s4"
    using e6 by blast+
  have g7: "dev (buf s7 1) = dev (buf held2 1)" "blockno (buf s7 1) = blockno (buf held2 1)"
    "valid (buf s7 1) = 1" "data (buf s7 1) = [9, 9, 9, 9]"
    "iolog s7 = iolog s5 @ [DiskRead (dev (buf held2 1)) (blockno (buf held2 1))]"
    using e7 by blast+
  have io: "iolog s6 = [DiskRead 1 1, DiskWrite 1 1, DiskRead 1 14, DiskRead 1 1]"
    unfolding g6(5) g4(2) t(6) t(4) k(2,3,5) by simp
  have io7: "iolog s7 = [DiskRead 1 1, DiskWrite 1 1, DiskRead 1 14, DiskRead 1 1]"
    unfolding g7(5) g5(1) g4(2) t(6) t(4) k(2,3,5) by simp
  have dk: "disk s6 (1, 1) = [9, 9, 9, 9]"
    unfolding g6(6) g4(3) t(5) t(3) k(2,3) by simp
  have g6': "dev (buf s6 0) = 1" "blockno (buf s6 0) = 1"
    using g6(1,2) k(2,3) by simp_all
  have g7': "dev (buf s7 1) = 1" "blockno (buf s7 1) = 1"
    using g7(1,2) k(2,3) by simp_all
  have "bwrite 1 (store_data 1 [9, 9, 9, 9] held2) = Inr s2 \<and> brelse 5 1 s2 = Inr s3 \<and>
      bread 1 14 s3 = Inr (1, s4) \<and> blockno (buf s4 1) = 14 \<and>
      bread 1 1 s4 = Inr (0, s6) \<and>
      dev (buf s6 0) = 1 \<and> blockno (buf s6 0) = 1 \<and> valid (buf s6 0) = 1 \<and>
      data (buf s6 0) = [9, 9, 9, 9] \<and> disk s6 (1, 1) = [9, 9, 9, 9] \<and>
      iolog s6 = [DiskRead 1 1, DiskWrite 1 1, DiskRead 1 14, DiskRead 1 1] \<and>
      brelse 7 1 s4 = Inr s5 \<and> bread 1 1 s5 = Inr (1, s7) \<and>
      dev (buf s7 1) = 1 \<and> blockno (buf s7 1) = 1 \<and> valid (buf s7 1) = 1 \<and>
      data (buf s7 1) = [9, 9, 9, 9] \<and>
      iolog s7 = [DiskRead 1 1, DiskWrite 1 1, DiskRead 1 14, DiskRead 1 1]"
    using t(1,2) s4 s6 s5 s7 g4(1) g6' g6(3,4) g7' g7(3,4) dk io io7 by simp
  then have "\<exists>s2 s3 s4 s5 s6 s7.
      bwrite 1 (store_data 1 [9, 9, 9, 9] held2) = Inr s2 \<and> brelse 5 1 s2 = Inr s3 \<and>
      bread 1 14 s3 = Inr (1, s4) \<and> blockno (buf s4 1) = 14 \<and>
      bread 1 1 s4 = Inr (0, s6) \<and>
      dev (buf s6 0) = 1 \<and> blockno (buf s6 0) = 1 \<and> valid (buf s6 0) = 1 \<and>
      data (buf s6 0) = [9, 9, 9, 9] \<and> disk s6 (1, 1) = [9, 9, 9, 9] \<and>
      iolog s6 = [DiskRead 1 1, DiskWrite 1 1, DiskRead 1 14, DiskRead 1 1] \<and>
      brelse 7 1 s4 = Inr s5 \<and> bread 1 1 s5 = Inr (1, s7) \<and>
      dev (buf s7 1) = 1 \<and> blockno (buf s7 1) = 1 \<and> valid (buf s7 1) = 1 \<and>
      data (buf s7 1) = [9, 9, 9, 9] \<and>
      iolog s7 = [DiskRead 1 1, DiskWrite 1 1, DiskRead 1 14, DiskRead 1 1]"
    by (intro exI)
  then show ?thesis using r k by simp
qed

end
